theory Spec2Isabelle
  imports Main "HOL-Library.Word"
begin

section \<open>Errors, futures and the store\<close>

text \<open>
  Go's \<open>error\<close> interface is an \<open>error option\<close>: \<open>None\<close> is \<open>nil\<close>.
  \<open>Canceled\<close> and \<open>DeadlineExceeded\<close> are the sentinels of package context,
  \<open>StillPending\<close> is \<open>errors.New("future is still pending")\<close>, \<open>Custom\<close> any other
  error value and \<open>Wrapped\<close> an error that wraps another one (\<open>fmt.Errorf("%w")\<close>).
\<close>

datatype error =
    Canceled
  | DeadlineExceeded
  | StillPending
  | EOF
  | EAGAIN
  | Custom string
  | Wrapped string error

text \<open>\<open>errors.Is(err, target)\<close>: \<open>err\<close> or an error it wraps equals \<open>target\<close>.\<close>

fun errors_Is :: "error option \<Rightarrow> error \<Rightarrow> bool" where
  "errors_Is None t = False"
| "errors_Is (Some (Wrapped m e)) t = (Wrapped m e = t \<or> errors_Is (Some e) t)"
| "errors_Is (Some e) t = (e = t)"

text \<open>
  The panics of the Go runtime that the model tells apart: a method call through a nil
  interface or pointer, an index out of range, \<open>next\<close> of a pulled iterator called while
  the iterator runs, and the panic of \<open>withTask\<close> (context switched from unexpected task).
\<close>

datatype panic =
    NilDereference
  | IndexOutOfRange
  | NextCalledAgain
  | UnexpectedTask

type_synonym fid = nat

type_synonym tid = nat

type_synonym cid = nat

type_synonym wid = nat

type_synonym label = nat

text \<open>
  A user closure is opaque: calling it is recorded in the trace with its arguments, and
  it may then complete or cancel futures it captured.
\<close>

datatype 'v uaction =
    USetResult fid 'v "error option"
  | UCancel fid "error option"

text \<open>
  The closures registered as future callbacks, one constructor per closure of the source:
  a user closure, the two closures of \<open>Shield\<close>, the closure of \<open>Wait\<close>, the done-callback
  of \<open>SpawnTask\<close> and the re-step closure of \<open>Task.Step\<close>. \<open>AddDoneCallback\<close> wraps a
  \<open>func(error)\<close> into a \<open>func(ResType, error)\<close> that drops the result; the last three
  are registered through it.
\<close>

datatype 'v callback =
    CbUser label "'v uaction list"
  | CbShieldFwd fid
  | CbShieldBack fid
  | CbWait wid
  | CbTaskDone tid
  | CbStep tid

text \<open>
  \<open>Future[ResType]\<close>, field by field. A \<open>*Future\<close> is the index of the future in the
  list of futures of the state.
\<close>

record 'v future =
  f_ctx :: "cid option"
  f_done :: bool
  f_err :: "error option"
  f_result :: 'v
  f_callbacks :: "'v callback list"
  f_name :: string

text \<open>\<open>context.WithCancelCause\<close>: a context with its parent and its own cause.\<close>

record cancelCtx =
  c_parent :: "cid option"
  c_cause :: "error option"

text \<open>
  A coroutine body, as the runtime sees it: it returns \<open>(result, err)\<close>, awaits a future
  (\<open>fut.Await(ctx)\<close>, going on with the first branch when Await returns no error and with
  the second when it returns one), or yields to the loop once (\<open>Yield(ctx, nil)\<close>).
\<close>

datatype 'v coro =
    Return 'v "error option"
  | Await fid "'v coro" "'v coro"
  | YieldNil "'v coro" "'v coro"

text \<open>
  The state of the pulled iterator of a task: not started, running user code, inside the
  yielder on its way back to user code, suspended in \<open>yield(fut)\<close>, or finished.
\<close>

datatype phase = NotStarted | Running | Yielding | Suspended | Finished

text \<open>
  \<open>Task[RetType]\<close>: the context \<open>SpawnTask\<close> derives for it, its result future and its
  pending future. The pulled iterator (\<open>next\<close>, \<open>stop\<close>) is what is left of the body, the
  phase, and the \<open>ok\<close> that the last \<open>next()\<close> returned.
\<close>

record 'v task =
  t_ctx :: cid
  resultFut :: fid
  pendingFut :: "fid option"
  body :: "'v coro"
  phase :: phase
  next_ok :: bool

text \<open>
  \<open>WaitMode\<close>.
\<close>

datatype WaitMode = WaitFirstResult | WaitFirstError | WaitAll

text \<open>The variables captured by the closure of one \<open>Wait\<close> call.\<close>

record wait_vars =
  w_mode :: WaitMode
  w_len :: nat
  w_done :: nat
  w_futErr :: "error option"
  w_waitFut :: fid

text \<open>The closures handed to \<open>ScheduleCallback\<close> and \<open>RunCallback\<close>.\<close>

datatype loopfn =
    LcSpawnStart tid
  | LcStep tid
  | LcSetResult fid
  | LcUser label

text \<open>
  A \<open>Callback\<close>: its closure and its fire time (nanoseconds). The heap position kept in
  \<open>index\<close> and the back reference \<open>queue\<close> are the position in the list.
\<close>

record Callback =
  cb_fn :: loopfn
  cb_when :: int

text \<open>
  What the trace records: the call of a user callback with its arguments, and the call
  of a user callback of the loop.
\<close>

datatype 'v event =
    Called label 'v "error option"
  | LoopCalled label

text \<open>
  The heap of the program and its event loop: the futures, contexts, tasks and \<open>Wait\<close>
  closures made so far, \<open>pendingCallbacks\<close> and \<open>currentTasks\<close> of the loop, the clock,
  the trace of the user callbacks called, and the panic that ended the program, if any.
\<close>

record 'v state =
  futs :: "'v future list"
  ctxs :: "cancelCtx list"
  tasks :: "'v task list"
  waits :: "wait_vars list"
  pendingCallbacks :: "Callback list"
  currentTasks :: "tid list"
  clock :: int
  trace :: "'v event list"
  panicked :: "panic option"

subsection \<open>Future: NewFuture, HasResult, Err, Result\<close>

text \<open>
  \<open>NewFuture\<close>: a zero \<open>Future\<close> (pending, no callback, nil \<open>ctx\<close>) at the next index.
\<close>

definition new_future :: "('v::zero) future" where
  "new_future = \<lparr>f_ctx = None, f_done = False, f_err = None, f_result = 0,
     f_callbacks = [], f_name = []\<rparr>"

definition NewFuture :: "('v::zero) state \<Rightarrow> fid \<times> 'v state" where
  "NewFuture s = (length (futs s), s\<lparr>futs := futs s @ [new_future]\<rparr>)"

text \<open>
  \<open>HasResult\<close> and \<open>Err\<close> read the fields.
\<close>

definition HasResult :: "'v state \<Rightarrow> fid \<Rightarrow> bool" where
  "HasResult s f = f_done (futs s ! f)"

definition Err :: "'v state \<Rightarrow> fid \<Rightarrow> error option" where
  "Err s f = f_err (futs s ! f)"

text \<open>
  \<open>context.Cause(ctx)\<close>: the cause of the context itself or else of the nearest
  cancelled ancestor. Parents are created before their children.
\<close>

function ctx_Cause :: "cancelCtx list \<Rightarrow> cid \<Rightarrow> error option" where
  "ctx_Cause cs c =
     (if c < length cs then
        (case c_cause (cs ! c) of
           Some e \<Rightarrow> Some e
         | None \<Rightarrow>
            (case c_parent (cs ! c) of
               None \<Rightarrow> None
             | Some p \<Rightarrow> if p < c then ctx_Cause cs p else None))
      else None)"
  by pat_completeness auto
termination
  by (relation "measure snd") auto

declare ctx_Cause.simps [simp del]

text \<open>
  \<open>ctx.Err()\<close> of a context made by \<open>WithCancelCause\<close>: \<open>context.Canceled\<close> once
  cancelled, whatever the cause.
\<close>

definition ctx_Err :: "cancelCtx list \<Rightarrow> cid \<Rightarrow> error option" where
  "ctx_Err cs c = (case ctx_Cause cs c of None \<Rightarrow> None | Some e \<Rightarrow> Some Canceled)"

text \<open>
  \<open>Future.Result\<close>. The field \<open>ctx\<close> is an interface value; calling \<open>Err\<close> on the nil
  interface panics.
\<close>

definition Result :: "('v::zero) state \<Rightarrow> fid \<Rightarrow> panic + ('v \<times> error option)" where
  "Result s f =
     (let fut = futs s ! f in
      if f_done fut then Inr (f_result fut, f_err fut)
      else
        (case f_ctx fut of
           None \<Rightarrow> Inl NilDereference
         | Some c \<Rightarrow>
            (case ctx_Err (ctxs s) c of
               None \<Rightarrow> Inr (0, Some StillPending)
             | Some e \<Rightarrow> Inr (0, Some e))))"

section \<open>The blocking step of the event loop\<close>

text \<open>
  \<open>time.Duration\<close> is a signed 64-bit count of nanoseconds; \<open>Time.Sub\<close> saturates at
  the largest and smallest duration.
\<close>

definition maxDuration :: int where
  "maxDuration = 2 ^ 63 - 1"

definition minDuration :: int where
  "minDuration = - (2 ^ 63)"

definition Second :: int where
  "Second = 1000000000"

definition time_Sub :: "int \<Rightarrow> int \<Rightarrow> int" where
  "time_Sub t u = max minDuration (min maxDuration (t - u))"

definition time_Until :: "int \<Rightarrow> int \<Rightarrow> int" where
  "time_Until t now = time_Sub t now"

text \<open>
  \<open>callbackQueue.Empty\<close>.
\<close>

definition Empty :: "Callback list \<Rightarrow> bool" where
  "Empty r = (length r = 0)"

text \<open>\<open>Peek\<close> indexes element 0 and panics on an empty queue.\<close>

definition Peek :: "Callback list \<Rightarrow> panic + Callback" where
  "Peek r = (case r of [] \<Rightarrow> Inl IndexOutOfRange | c # _ \<Rightarrow> Inr c)"

text \<open>
  \<open>TimeUntilFirst\<close>: \<open>time.Until(r.Peek().when)\<close>.
\<close>

definition TimeUntilFirst :: "Callback list \<Rightarrow> int \<Rightarrow> panic + int" where
  "TimeUntilFirst r now =
     (case Peek r of Inl p \<Rightarrow> Inl p | Inr c \<Rightarrow> Inr (time_Until (cb_when c) now))"

text \<open>
  Lines 439 to 448 of \<open>EventLoop.Run\<close>: the timeout handed to \<open>poller.Wait\<close>. \<open>now1\<close>
  and \<open>now2\<close> are the two readings of the clock, \<open>deadline\<close> is \<open>ctx.Deadline()\<close>.
\<close>

definition Run_timeout :: "Callback list \<Rightarrow> int option \<Rightarrow> int \<Rightarrow> int \<Rightarrow> panic + int" where
  "Run_timeout q deadline now1 now2 =
     (case (if \<not> Empty q then TimeUntilFirst q now1 else Inr (Second * 30)) of
        Inl p \<Rightarrow> Inl p
      | Inr timeout \<Rightarrow>
         (case deadline of
            None \<Rightarrow> Inr timeout
          | Some d \<Rightarrow>
             (let untilDeadline = time_Until d now2 in
              if untilDeadline < timeout then Inr untilDeadline else Inr timeout)))"

text \<open>
  The timeout as the specification words it: the minimum of the time until the first
  callback (when there is one), the time until the deadline (when there is one) and the
  hard cap.
\<close>

definition HARD_CAP :: int where
  "HARD_CAP = Second * 30"

definition spec_timeout :: "Callback list \<Rightarrow> int option \<Rightarrow> int \<Rightarrow> int \<Rightarrow> int" where
  "spec_timeout q deadline now1 now2 =
     (let t1 = (case q of [] \<Rightarrow> HARD_CAP | c # _ \<Rightarrow> min (time_Until (cb_when c) now1) HARD_CAP)
      in case deadline of None \<Rightarrow> t1 | Some d \<Rightarrow> min t1 (time_Until d now2))"

section \<open>The asynchronous byte stream\<close>

text \<open>
  The descriptor behind a stream (\<open>AsyncFder\<close>) is outside the package. It is a script
  of what its non-blocking \<open>Read\<close> will meet, in order: bytes that have arrived (a
  \<open>Read\<close> returns as many as fit its buffer), a moment with nothing to read (\<open>Read\<close>
  returns \<open>EAGAIN\<close> and \<open>WaitForReady\<close> then returns the given error), or a failure.
  At the end of the script \<open>Read\<close> returns \<open>io.EOF\<close>.
\<close>

type_synonym byte = "8 word"

datatype fd_event =
    Bytes "byte list"
  | WouldBlock "error option"
  | Failure error

text \<open>
  \<open>AsyncStream\<close>: the descriptor and the read buffer. The capacity of the buffer, which
  \<open>slices.Grow\<close> changes, is not observable.
\<close>

record AsyncStream =
  a_file :: "fd_event list"
  a_buffer :: "byte list"

text \<open>
  \<open>file.Read(buf)\<close> for a buffer of \<open>k\<close> bytes, and \<open>file.WaitForReady(ctx)\<close>.
\<close>

definition file_Read :: "fd_event list \<Rightarrow> nat \<Rightarrow> (byte list \<times> error option) \<times> fd_event list" where
  "file_Read es k =
     (case es of
        [] \<Rightarrow> (([], Some EOF), [])
      | Bytes bs # es' \<Rightarrow>
          if length bs \<le> k then ((bs, None), es')
          else ((take k bs, None), Bytes (drop k bs) # es')
      | WouldBlock w # es' \<Rightarrow> (([], Some EAGAIN), es)
      | Failure e # es' \<Rightarrow> (([], Some e), es'))"

definition file_WaitForReady :: "fd_event list \<Rightarrow> error option \<times> fd_event list" where
  "file_WaitForReady es =
     (case es of WouldBlock w # es' \<Rightarrow> (w, es') | _ \<Rightarrow> (None, es))"

text \<open>
  What is left of a script, as a number: the reading loops end because it shrinks.
\<close>

fun event_size :: "fd_event \<Rightarrow> nat" where
  "event_size (Bytes bs) = Suc (length bs)"
| "event_size _ = 1"

definition file_size :: "fd_event list \<Rightarrow> nat" where
  "file_size es = sum_list (map event_size es)"

text \<open>
  The loop of \<open>AsyncStream.read\<close> (lines 589 to 602): append what \<open>Read\<close> returns; on
  \<open>EAGAIN\<close> wait and, when the wait succeeds, read again; else return the length of the
  buffer and the error.
\<close>

function read_loop :: "AsyncStream \<Rightarrow> nat \<Rightarrow> (nat \<times> error option) \<times> AsyncStream" where
  "read_loop a maxBytes =
     (let r = file_Read (a_file a) (maxBytes - length (a_buffer a));
          a1 = a\<lparr>a_file := snd r, a_buffer := a_buffer a @ fst (fst r)\<rparr>
      in if errors_Is (snd (fst r)) EAGAIN then
           (let w = file_WaitForReady (a_file a1); a2 = a1\<lparr>a_file := snd w\<rparr>
            in if fst w = None then read_loop a2 maxBytes
               else ((length (a_buffer a2), fst w), a2))
         else ((length (a_buffer a1), snd (fst r)), a1))"
  by pat_completeness auto
termination
  by (relation "measure (\<lambda>(a, m). length (a_file a))")
     (auto simp: file_Read_def file_WaitForReady_def split: list.splits fd_event.splits if_splits)

declare read_loop.simps [simp del]

text \<open>\<open>AsyncStream.read\<close>\<close>

definition read :: "AsyncStream \<Rightarrow> nat \<Rightarrow> (nat \<times> error option) \<times> AsyncStream" where
  "read a maxBytes =
     (if length (a_buffer a) \<ge> maxBytes then ((maxBytes, None), a)
      else read_loop a maxBytes)"

text \<open>
  \<open>consume\<close> (with \<open>consumeInto\<close>) and \<open>consumeAll\<close>.
\<close>

definition consume :: "AsyncStream \<Rightarrow> nat \<Rightarrow> byte list \<times> AsyncStream" where
  "consume a maxBytes =
     (let n = min (min maxBytes (length (a_buffer a))) (length (a_buffer a))
      in (take n (a_buffer a), a\<lparr>a_buffer := drop n (a_buffer a)\<rparr>))"

definition consumeAll :: "AsyncStream \<Rightarrow> byte list \<times> AsyncStream" where
  "consumeAll a = (a_buffer a, a\<lparr>a_buffer := []\<rparr>)"

text \<open>The first index \<open>i \<ge> from\<close> with \<open>xs ! i = ch\<close>, as the two scanning loops find it.\<close>

fun scan :: "byte list \<Rightarrow> byte \<Rightarrow> nat \<Rightarrow> nat option" where
  "scan [] ch i = None"
| "scan (b # bs) ch i = (if b = ch then Some i else scan bs ch (Suc i))"

definition scan_from :: "byte list \<Rightarrow> byte \<Rightarrow> nat \<Rightarrow> nat option" where
  "scan_from xs ch from = scan (drop from xs) ch from"

lemma file_WaitForReady_size:
  "file_size (snd (file_WaitForReady es)) \<le> file_size es"
  "length (snd (file_WaitForReady es)) \<le> length es"
  by (auto simp: file_WaitForReady_def file_size_def split: list.splits fd_event.splits)

lemma read_loop_file_size:
  "read_loop a m = ((n, None), a') \<Longrightarrow> length (a_buffer a) < m \<Longrightarrow> file_size (a_file a') < file_size (a_file a)"
proof (induction "length (a_file a)" arbitrary: a rule: less_induct)
  case less
  let ?r = "file_Read (a_file a) (m - length (a_buffer a))"
  let ?a1 = "a\<lparr>a_file := snd ?r, a_buffer := a_buffer a @ fst (fst ?r)\<rparr>"
  let ?w = "file_WaitForReady (a_file ?a1)"
  let ?a2 = "?a1\<lparr>a_file := snd ?w\<rparr>"
  show ?case
  proof (cases "errors_Is (snd (fst ?r)) EAGAIN")
    case False
    with less.prems have "snd (fst ?r) = None" "a' = ?a1"
      by (subst (asm) read_loop.simps, simp add: Let_def)+
    with less.prems(2) show ?thesis
      by (auto simp: file_Read_def file_size_def split: list.splits fd_event.splits if_splits)
  next
    case True
    then have shrink: "length (a_file ?a2) < length (a_file a)" "file_size (a_file ?a2) \<le> file_size (a_file a)"
      and buf: "a_buffer ?a2 = a_buffer a"
      using file_WaitForReady_size[of "snd ?r"]
      by (auto simp: file_Read_def file_size_def file_WaitForReady_def
          split: list.splits fd_event.splits if_splits)
    from True less.prems(1) have "read_loop ?a2 m = ((n, None), a')"
      by (subst (asm) read_loop.simps) (simp add: Let_def split: if_splits)
    from less.hyps[OF shrink(1) this] buf less.prems(2) shrink(2) show ?thesis
      by simp
  qed
qed

lemma read_progress:
  "snd (fst (read a m)) = None \<Longrightarrow>
     (snd (read a m) = a \<and> m \<le> length (a_buffer a))
     \<or> file_size (a_file (snd (read a m))) < file_size (a_file a)"
proof (cases "m \<le> length (a_buffer a)")
  case True
  then show ?thesis by (simp add: read_def)
next
  case False
  assume e: "snd (fst (read a m)) = None"
  obtain n e' a' where r: "read_loop a m = ((n, e'), a')"
    by (metis prod.exhaust)
  with e False have "e' = None" by (simp add: read_def)
  with r False have "file_size (a_file a') < file_size (a_file a)"
    using read_loop_file_size[of a m n a'] by simp
  with r False show ?thesis by (simp add: read_def)
qed

text \<open>
  \<open>AsyncStream.ReadUntil\<close>. \<open>bufSize\<close> starts at 1024 and only doubles: it is
  \<open>1024 * 2 ^ k\<close>.
\<close>

function ReadUntil_loop :: "AsyncStream \<Rightarrow> byte \<Rightarrow> nat \<Rightarrow> (byte list \<times> error option) \<times> AsyncStream" where
  "ReadUntil_loop a character k =
     (let bufSize = 1024 * 2 ^ k;
          r = read a bufSize;
          n = fst (fst r); e = snd (fst r); a1 = snd r
      in case scan_from (a_buffer a1) character (length (a_buffer a1) - n) of
           Some i \<Rightarrow> (let c = consume a1 (i + 1) in ((fst c, None), snd c))
         | None \<Rightarrow>
            if errors_Is e EOF \<and> length (a_buffer a1) > 0 then
              (let c = consumeAll a1 in ((fst c, None), snd c))
            else if e \<noteq> None then (([], e), a1)
            else if length (a_buffer a1) \<ge> bufSize then ReadUntil_loop a1 character (Suc k)
            else ReadUntil_loop a1 character k)"
  by pat_completeness auto
termination
proof (relation "measures [\<lambda>(a, c, k). file_size (a_file a),
         \<lambda>(a, c, k). Suc (length (a_buffer a)) - 1024 * 2 ^ k]", goal_cases)
  case 1
  show ?case by simp
next
  case (2 a character k bufSize r n e a1)
  then have none: "snd (fst (read a (1024 * 2 ^ k))) = None"
    and a1: "a1 = snd (read a (1024 * 2 ^ k))"
    by simp_all
  have pos: "(0::nat) < 1024 * 2 ^ k" by simp
  from read_progress[OF none] show ?case
  proof
    assume "snd (read a (1024 * 2 ^ k)) = a \<and> 1024 * 2 ^ k \<le> length (a_buffer a)"
    with a1 pos have "a1 = a" "1024 * 2 ^ k \<le> length (a_buffer a)" by simp_all
    moreover have "Suc L - 2 * b < Suc L - b" if "b \<le> L" "0 < b" for b L :: nat
      using that by arith
    from this[of "1024 * 2 ^ k" "length (a_buffer a)"] pos
    have "Suc (length (a_buffer a)) - 1024 * 2 ^ Suc k < Suc (length (a_buffer a)) - 1024 * 2 ^ k"
      if "1024 * 2 ^ k \<le> length (a_buffer a)"
      using that by simp
    ultimately show ?thesis by simp
  next
    assume "file_size (a_file (snd (read a (1024 * 2 ^ k)))) < file_size (a_file a)"
    with a1 show ?thesis by simp
  qed
next
  case (3 a character k bufSize r n e a1)
  then have none: "snd (fst (read a (1024 * 2 ^ k))) = None"
    and a1: "a1 = snd (read a (1024 * 2 ^ k))"
    and small: "\<not> 1024 * 2 ^ k \<le> length (a_buffer a1)"
    by simp_all
  from read_progress[OF none] show ?case
  proof
    assume "snd (read a (1024 * 2 ^ k)) = a \<and> 1024 * 2 ^ k \<le> length (a_buffer a)"
    with a1 small show ?thesis by simp
  next
    assume "file_size (a_file (snd (read a (1024 * 2 ^ k)))) < file_size (a_file a)"
    with a1 show ?thesis by simp
  qed
qed

declare ReadUntil_loop.simps [simp del]

text \<open>
  \<open>ReadUntil\<close>: the scan of what is buffered (lines 734 to 738), then the loop.
\<close>

definition ReadUntil :: "AsyncStream \<Rightarrow> byte \<Rightarrow> (byte list \<times> error option) \<times> AsyncStream" where
  "ReadUntil a character =
     (case scan (a_buffer a) character 0 of
        Some i \<Rightarrow> (let c = consume a (i + 1) in ((fst c, None), snd c))
      | None \<Rightarrow> ReadUntil_loop a character 0)"

text \<open>
  A descriptor that delivers its bytes without failing, the bytes it delivers, and the
  result the specification gives \<open>ReadUntil\<close> on an input.
\<close>

fun ok_event :: "fd_event \<Rightarrow> bool" where
  "ok_event (Bytes bs) = True"
| "ok_event (WouldBlock w) = (w = None)"
| "ok_event (Failure e) = False"

fun event_bytes :: "fd_event \<Rightarrow> byte list" where
  "event_bytes (Bytes bs) = bs"
| "event_bytes _ = []"

definition input_bytes :: "fd_event list \<Rightarrow> byte list" where
  "input_bytes es = concat (map event_bytes es)"

definition ReadUntil_spec :: "byte list \<Rightarrow> byte \<Rightarrow> byte list \<times> error option" where
  "ReadUntil_spec input ch =
     (if ch \<in> set input then (takeWhile (\<lambda>b. b \<noteq> ch) input @ [ch], None)
      else if input \<noteq> [] then (input, None)
      else ([], Some EOF))"

section \<open>The runtime: calls, callbacks, tasks and the loop\<close>

text \<open>
  Calls nest: \<open>SetResult\<close> calls the callbacks, a callback completes another future or
  steps a task, the step runs a coroutine, which returns into \<open>SetResult\<close> again. The
  model keeps the calls still to be made in a work list, the next one first: a call of
  \<open>SetResult\<close>, the call of a callback, the cancel function of a context, \<open>Task.Step\<close>,
  the user code of a coroutine going on from where it is, the return of the yielder into
  the coroutine (with \<open>task.Err()\<close> or with nil), the end of the iterator function, the
  rest of \<open>Step\<close> once \<open>next()\<close> has returned (with the \<open>oldTasks\<close> that \<open>withTask\<close>
  saved), and the call of a loop callback.
\<close>

datatype 'v work =
    WSetResult fid 'v "error option"
  | WCall "'v callback" 'v "error option"
  | WCtxCancel cid "error option"
  | WStep tid
  | WBody tid
  | WYieldRet tid bool
  | WFinish tid
  | WNextRet tid "tid list"
  | WLoopCb loopfn

text \<open>
  \<open>if err == nil { err = context.Canceled }\<close> of \<open>Future.Cancel\<close>; the cancel function of
  \<open>context.WithCancelCause\<close> reads a nil cause the same way.
\<close>

definition canc :: "error option \<Rightarrow> error" where
  "canc e = (case e of None \<Rightarrow> Canceled | Some x \<Rightarrow> x)"

text \<open>
  A write through the pointer to a future, or to a task.
\<close>

definition upd_fut :: "fid \<Rightarrow> ('v future \<Rightarrow> 'v future) \<Rightarrow> 'v state \<Rightarrow> 'v state" where
  "upd_fut f g s = s\<lparr>futs := (futs s)[f := g (futs s ! f)]\<rparr>"

definition upd_task :: "tid \<Rightarrow> ('v task \<Rightarrow> 'v task) \<Rightarrow> 'v state \<Rightarrow> 'v state" where
  "upd_task t g s = s\<lparr>tasks := (tasks s)[t := g (tasks s ! t)]\<rparr>"

text \<open>
  A panic: nothing more is called and the state records it.
\<close>

definition do_panic :: "panic \<Rightarrow> 'v state \<Rightarrow> 'v work list \<times> 'v state" where
  "do_panic p s = ([], s\<lparr>panicked := Some p\<rparr>)"

subsection \<open>The callback queue: container/heap over callbackQueue\<close>

text \<open>
  \<open>callbackQueue.Less\<close> and \<open>Swap\<close>.
\<close>

definition Less :: "Callback list \<Rightarrow> nat \<Rightarrow> nat \<Rightarrow> bool" where
  "Less r i j = (cb_when (r ! i) < cb_when (r ! j))"

definition Swap :: "Callback list \<Rightarrow> nat \<Rightarrow> nat \<Rightarrow> Callback list" where
  "Swap r i j = r[i := r ! j, j := r ! i]"

text \<open>
  \<open>up\<close> and \<open>down\<close> of container/heap.
\<close>

function up :: "Callback list \<Rightarrow> nat \<Rightarrow> Callback list" where
  "up h j =
     (let i = (j - 1) div 2
      in if i = j \<or> \<not> Less h j i then h else up (Swap h i j) i)"
  by pat_completeness auto
termination
  by (relation "measure snd") auto

function down :: "Callback list \<Rightarrow> nat \<Rightarrow> nat \<Rightarrow> Callback list" where
  "down h i n =
     (let j1 = 2 * i + 1
      in if j1 \<ge> n then h
         else (let j = (if j1 + 1 < n \<and> Less h (j1 + 1) j1 then j1 + 1 else j1)
               in if \<not> Less h j i then h else down (Swap h i j) j n))"
  by pat_completeness auto
termination
  by (relation "measure (\<lambda>(h, i, n). n - i)") auto

declare up.simps [simp del] down.simps [simp del]

text \<open>
  \<open>heap.Push\<close> is \<open>h.Push(x); up(h, h.Len()-1)\<close> and \<open>heap.Pop\<close> is
  \<open>h.Swap(0, n); down(h, 0, n); h.Pop()\<close> with \<open>n = h.Len() - 1\<close>.
\<close>

definition heap_Push :: "Callback list \<Rightarrow> Callback \<Rightarrow> Callback list" where
  "heap_Push h x = up (h @ [x]) (length (h @ [x]) - 1)"

definition heap_Pop :: "Callback list \<Rightarrow> Callback list" where
  "heap_Pop h =
     (let n = length h - 1; h1 = down (Swap h 0 n) 0 n
      in take (length h1 - 1) h1)"

text \<open>
  \<open>ScheduleCallback\<close> and \<open>RunCallback\<close>: the callback made by \<open>NewCallback\<close> fires at
  \<open>time.Now().Add(duration)\<close>.
\<close>

definition ScheduleCallback :: "int \<Rightarrow> loopfn \<Rightarrow> 'v state \<Rightarrow> 'v state" where
  "ScheduleCallback delay fn s =
     s\<lparr>pendingCallbacks :=
         heap_Push (pendingCallbacks s) \<lparr>cb_fn = fn, cb_when = clock s + delay\<rparr>\<rparr>"

definition RunCallback :: "loopfn \<Rightarrow> 'v state \<Rightarrow> 'v state" where
  "RunCallback fn s = ScheduleCallback 0 fn s"

subsection \<open>One step of the runtime\<close>

text \<open>
  What a user closure does to a future it captured.
\<close>

definition uaction_work :: "('v::zero) uaction \<Rightarrow> 'v work" where
  "uaction_work a =
     (case a of
        USetResult f v e \<Rightarrow> WSetResult f v e
      | UCancel f e \<Rightarrow> WSetResult f 0 (Some (canc e)))"

text \<open>
  \<open>Future.SetResult\<close> (lines 147 to 158): nothing when the future is done; else store the
  pair, mark the future done, then call every callback in the order of the list.
\<close>

definition SetResult_step :: "fid \<Rightarrow> 'v \<Rightarrow> error option \<Rightarrow> 'v state \<Rightarrow> 'v work list \<times> 'v state" where
  "SetResult_step f v e s =
     (if f \<ge> length (futs s) then do_panic NilDereference s
      else if f_done (futs s ! f) then ([], s)
      else (map (\<lambda>c. WCall c v e) (f_callbacks (futs s ! f)),
            upd_fut f (\<lambda>x. x\<lparr>f_result := v, f_err := e, f_done := True\<rparr>) s))"

text \<open>
  The closure of \<open>Wait\<close> (lines 863 to 873).
\<close>

definition Wait_callback :: "wid \<Rightarrow> error option \<Rightarrow> ('v::zero) state \<Rightarrow> 'v work list \<times> 'v state" where
  "Wait_callback w e s =
     (if w \<ge> length (waits s) then do_panic NilDereference s
      else
        (let wv = (waits s ! w)\<lparr>w_done := w_done (waits s ! w) + 1\<rparr>
         in if e \<noteq> None then
              (let wv' = wv\<lparr>w_futErr := e\<rparr>; s' = s\<lparr>waits := (waits s)[w := wv']\<rparr>
               in if w_mode wv' \<noteq> WaitAll then ([WSetResult (w_waitFut wv') 0 e], s')
                  else ([], s'))
            else
              (let s' = s\<lparr>waits := (waits s)[w := wv]\<rparr>
               in if w_done wv \<ge> w_len wv \<or> w_mode wv = WaitFirstResult
                  then ([WSetResult (w_waitFut wv) 0 (w_futErr wv)], s')
                  else ([], s'))))"

text \<open>
  The done-callback of \<open>SpawnTask\<close> (lines 205 to 210).
\<close>

definition TaskDone_callback :: "tid \<Rightarrow> error option \<Rightarrow> ('v::zero) state \<Rightarrow> 'v work list \<times> 'v state" where
  "TaskDone_callback t e s =
     (if t \<ge> length (tasks s) then do_panic NilDereference s
      else
        ((case pendingFut (tasks s ! t) of
            None \<Rightarrow> []
          | Some pf \<Rightarrow> [WSetResult pf 0 (Some (canc None))])
         @ [WCtxCancel (t_ctx (tasks s ! t)) e], s))"

text \<open>
  The call of a callback with \<open>(result, err)\<close>.
\<close>

fun call :: "('v::zero) callback \<Rightarrow> 'v \<Rightarrow> error option \<Rightarrow> 'v state \<Rightarrow> 'v work list \<times> 'v state" where
  "call (CbUser l acts) v e s = (map uaction_work acts, s\<lparr>trace := trace s @ [Called l v e]\<rparr>)"
| "call (CbShieldFwd fut) v e s = ([WSetResult fut v e], s)"
| "call (CbShieldBack f) v e s =
     (if \<not> errors_Is e Canceled then ([WSetResult f v e], s) else ([], s))"
| "call (CbWait w) v e s = Wait_callback w e s"
| "call (CbTaskDone t) v e s = TaskDone_callback t e s"
| "call (CbStep t) v e s = ([WStep t], s)"

text \<open>
  The cancel function of \<open>context.WithCancelCause\<close>: a context already cancelled, itself
  or through an ancestor, keeps its cause.
\<close>

definition ctx_cancel :: "cid \<Rightarrow> error option \<Rightarrow> 'v state \<Rightarrow> 'v state" where
  "ctx_cancel c e s =
     (if c \<ge> length (ctxs s) \<or> ctx_Cause (ctxs s) c \<noteq> None then s
      else s\<lparr>ctxs := (ctxs s)[c := (ctxs s ! c)\<lparr>c_cause := Some (canc e)\<rparr>]\<rparr>)"

text \<open>
  The yielder (lines 179 to 202) up to \<open>yield(fut)\<close>, for a coroutine that passes its own
  context: with the context cancelled it cancels the result future and the awaited
  future and returns \<open>task.Err()\<close>; else the coroutine suspends and \<open>next()\<close> returns
  \<open>(fut, true)\<close>.
\<close>

definition yielder :: "tid \<Rightarrow> fid option \<Rightarrow> ('v::zero) state \<Rightarrow> 'v work list \<times> 'v state" where
  "yielder t fut s =
     (let task = tasks s ! t
      in case ctx_Cause (ctxs s) (t_ctx task) of
           Some err \<Rightarrow>
             ([WSetResult (resultFut task) 0 (Some err)]
              @ (case fut of None \<Rightarrow> [] | Some f \<Rightarrow> [WSetResult f 0 (Some err)])
              @ [WYieldRet t True],
              upd_task t (\<lambda>x. x\<lparr>phase := Yielding\<rparr>) s)
         | None \<Rightarrow>
             ([], upd_task t (\<lambda>x. x\<lparr>phase := Suspended, pendingFut := fut, next_ok := True\<rparr>) s))"

text \<open>
  The user code at its current point: a return goes into
  \<open>task.resultFut.SetResult(coro(ctx))\<close> (line 203) and ends the iterator function; an await
  or a yield enters the yielder.
\<close>

definition Body_step :: "tid \<Rightarrow> ('v::zero) state \<Rightarrow> 'v work list \<times> 'v state" where
  "Body_step t s =
     (if t \<ge> length (tasks s) then do_panic NilDereference s
      else if phase (tasks s ! t) \<noteq> Running then ([], s)
      else
        (case body (tasks s ! t) of
           Return v e \<Rightarrow> ([WSetResult (resultFut (tasks s ! t)) v e, WFinish t], s)
         | Await f k1 k2 \<Rightarrow> yielder t (Some f) s
         | YieldNil k1 k2 \<Rightarrow> yielder t None s))"

text \<open>
  The yielder returns into \<open>Await\<close>: with an error, \<open>Await\<close> returns it and the
  coroutine takes its error branch; with nil, \<open>Await\<close> returns \<open>f.Result()\<close>.
\<close>

definition continue_with :: "tid \<Rightarrow> 'v coro \<Rightarrow> 'v state \<Rightarrow> 'v work list \<times> 'v state" where
  "continue_with t k s = ([WBody t], upd_task t (\<lambda>x. x\<lparr>body := k, phase := Running\<rparr>) s)"

definition YieldRet_step :: "tid \<Rightarrow> bool \<Rightarrow> ('v::zero) state \<Rightarrow> 'v work list \<times> 'v state" where
  "YieldRet_step t use_err s =
     (if t \<ge> length (tasks s) then do_panic NilDereference s
      else if phase (tasks s ! t) \<noteq> Yielding then ([], s)
      else
        (let task = tasks s ! t;
             r = (if use_err then Err s (resultFut task) else None)
         in case body task of
              Return v e \<Rightarrow> ([], s)
            | YieldNil k1 k2 \<Rightarrow> continue_with t (if r = None then k1 else k2) s
            | Await f k1 k2 \<Rightarrow>
                if r \<noteq> None then continue_with t k2 s
                else if f \<ge> length (futs s) then do_panic NilDereference s
                else
                  (case Result s f of
                     Inl p \<Rightarrow> do_panic p s
                   | Inr (v, e) \<Rightarrow> continue_with t (if e = None then k1 else k2) s)))"

text \<open>
  \<open>Task.Step\<close> up to \<open>next()\<close> (lines 230 to 233). \<open>withTask\<close> pushes the task; \<open>next()\<close>
  starts the coroutine, or resumes it where \<open>yield\<close> returned true (lines 197 to 201),
  or returns \<open>(nil, false)\<close> when the coroutine has finished, or panics when it is
  running.
\<close>

definition Step_step :: "tid \<Rightarrow> ('v::zero) state \<Rightarrow> 'v work list \<times> 'v state" where
  "Step_step t s =
     (if t \<ge> length (tasks s) then do_panic NilDereference s
      else
        (let task = tasks s ! t; old = currentTasks s;
             s1 = s\<lparr>currentTasks := currentTasks s @ [t]\<rparr>
         in case phase task of
              Finished \<Rightarrow> ([], upd_task t (\<lambda>x. x\<lparr>pendingFut := None, next_ok := False\<rparr>) s)
            | NotStarted \<Rightarrow>
                ([WBody t, WNextRet t old], upd_task t (\<lambda>x. x\<lparr>phase := Running\<rparr>) s1)
            | Suspended \<Rightarrow>
                (case ctx_Cause (ctxs s) (t_ctx task) of
                   Some err \<Rightarrow>
                     ([WSetResult (resultFut task) 0 (Some err), WYieldRet t True, WNextRet t old],
                      upd_task t (\<lambda>x. x\<lparr>phase := Yielding\<rparr>) s1)
                 | None \<Rightarrow>
                     ([WYieldRet t False, WNextRet t old],
                      upd_task t (\<lambda>x. x\<lparr>phase := Yielding\<rparr>) s1))
            | _ \<Rightarrow> do_panic NextCalledAgain s))"

text \<open>
  The rest of \<open>withTask\<close> (lines 481 to 484) and of \<open>Step\<close> (lines 234 to 249).
\<close>

definition NextRet_step :: "tid \<Rightarrow> tid list \<Rightarrow> ('v::zero) state \<Rightarrow> 'v work list \<times> 'v state" where
  "NextRet_step t old s =
     (if t \<ge> length (tasks s) then do_panic NilDereference s
      else if currentTasks s = [] then do_panic IndexOutOfRange s
      else if last (currentTasks s) \<noteq> t then do_panic UnexpectedTask s
      else
        (let s1 = s\<lparr>currentTasks := old\<rparr>; task = tasks s ! t
         in if next_ok task then
              (case pendingFut task of
                 Some pf \<Rightarrow>
                   if pf \<ge> length (futs s) then do_panic NilDereference s
                   else if f_done (futs s ! pf) then ([WStep t], s1)
                   else ([], upd_fut pf (\<lambda>x. x\<lparr>f_callbacks := f_callbacks x @ [CbStep t]\<rparr>) s1)
               | None \<Rightarrow> ([], RunCallback (LcStep t) s1))
            else ([], upd_task t (\<lambda>x. x\<lparr>pendingFut := None\<rparr>) s1)))"

text \<open>
  The call of a loop callback: the start closure of \<open>SpawnTask\<close> (lines 217 to 226), the
  re-step of \<open>Step\<close> (line 240), the closure of \<open>Sleep\<close> (line 914), a user closure.
\<close>

definition LoopCb_step :: "loopfn \<Rightarrow> ('v::zero) state \<Rightarrow> 'v work list \<times> 'v state" where
  "LoopCb_step fn s =
     (case fn of
        LcSpawnStart t \<Rightarrow>
          if t \<ge> length (tasks s) \<or> resultFut (tasks s ! t) \<ge> length (futs s)
          then do_panic NilDereference s
          else if HasResult s (resultFut (tasks s ! t)) then ([], s)
          else
            (case ctx_Cause (ctxs s) (t_ctx (tasks s ! t)) of
               Some err \<Rightarrow> ([WSetResult (resultFut (tasks s ! t)) 0 (Some err)], s)
             | None \<Rightarrow> ([WStep t], s))
      | LcStep t \<Rightarrow> ([WStep t], s)
      | LcSetResult f \<Rightarrow> ([WSetResult f 0 None], s)
      | LcUser l \<Rightarrow> ([], s\<lparr>trace := trace s @ [LoopCalled l]\<rparr>))"

text \<open>
  One step: the first call of the work list is made; it returns the calls it makes in
  turn, which come before the rest.
\<close>

fun step :: "('v::zero) work \<Rightarrow> 'v state \<Rightarrow> 'v work list \<times> 'v state" where
  "step (WSetResult f v e) s = SetResult_step f v e s"
| "step (WCall cb v e) s = call cb v e s"
| "step (WCtxCancel c e) s = ([], ctx_cancel c e s)"
| "step (WStep t) s = Step_step t s"
| "step (WBody t) s = Body_step t s"
| "step (WYieldRet t b) s = YieldRet_step t b s"
| "step (WFinish t) s =
     ([], if t < length (tasks s) then upd_task t (\<lambda>x. x\<lparr>phase := Finished, next_ok := False\<rparr>) s else s)"
| "step (WNextRet t old) s = NextRet_step t old s"
| "step (WLoopCb fn) s = LoopCb_step fn s"

subsection \<open>Running to completion\<close>

text \<open>
  Every step makes the triple of the code left in the coroutines, the number of pending
  futures and the weight of the work list smaller in the lexicographic order: every
  call returns.
\<close>

fun coro_size :: "'v coro \<Rightarrow> nat" where
  "coro_size (Return v e) = 0"
| "coro_size (Await f k1 k2) = Suc (coro_size k1 + coro_size k2)"
| "coro_size (YieldNil k1 k2) = Suc (coro_size k1 + coro_size k2)"

fun phase_w :: "phase \<Rightarrow> nat" where
  "phase_w NotStarted = 4"
| "phase_w Running = 3"
| "phase_w Suspended = 2"
| "phase_w Yielding = 1"
| "phase_w Finished = 0"

definition task_w :: "'v task \<Rightarrow> nat" where
  "task_w t = 4 * coro_size (body t) + phase_w (phase t)"

definition tasks_w :: "'v state \<Rightarrow> nat" where
  "tasks_w s = sum_list (map task_w (tasks s))"

definition pending_w :: "'v state \<Rightarrow> nat" where
  "pending_w s = sum_list (map (\<lambda>x. if f_done x then 0 else 1) (futs s))"

fun cb_w :: "'v callback \<Rightarrow> nat" where
  "cb_w (CbUser l acts) = length acts"
| "cb_w (CbTaskDone t) = 2"
| "cb_w _ = 1"

fun work_w :: "'v work \<Rightarrow> nat" where
  "work_w (WCall cb v e) = Suc (cb_w cb)"
| "work_w (WBody t) = 3"
| "work_w (WNextRet t old) = 2"
| "work_w (WLoopCb fn) = 2"
| "work_w _ = 1"

definition works_w :: "'v work list \<Rightarrow> nat" where
  "works_w ws = sum_list (map work_w ws)"

lemma sum_list_update_less:
  "i < length xs \<Longrightarrow> g y < g (xs ! i) \<Longrightarrow>
   sum_list (map g (xs[i := y])) < sum_list (map (g :: 'a \<Rightarrow> nat) xs)"
proof (induction xs arbitrary: i)
  case Nil
  then show ?case by simp
next
  case (Cons x xs)
  then show ?case by (cases i) auto
qed

lemma sum_list_update_eq:
  "g y = g (xs ! i) \<Longrightarrow>
   sum_list (map g (xs[i := y])) = sum_list (map (g :: 'a \<Rightarrow> nat) xs)"
proof (induction xs arbitrary: i)
  case Nil
  then show ?case by simp
next
  case (Cons x xs)
  then show ?case by (cases i) auto
qed

lemma sum_list_update_le:
  "g y \<le> g (xs ! i) \<Longrightarrow>
   sum_list (map g (xs[i := y])) \<le> sum_list (map (g :: 'a \<Rightarrow> nat) xs)"
proof (induction xs arbitrary: i)
  case Nil
  then show ?case by simp
next
  case (Cons x xs)
  then show ?case by (cases i) auto
qed

definition smaller :: "'v work list \<times> 'v state \<Rightarrow> 'v work \<times> 'v state \<Rightarrow> bool" where
  "smaller r x =
     (tasks_w (snd r) < tasks_w (snd x)
      \<or> tasks_w (snd r) = tasks_w (snd x)
        \<and> (pending_w (snd r) < pending_w (snd x)
           \<or> pending_w (snd r) = pending_w (snd x) \<and> works_w (fst r) < work_w (fst x)))"

lemma tasks_w_simps [simp]:
  "tasks_w (s\<lparr>panicked := p\<rparr>) = tasks_w s"
  "tasks_w (s\<lparr>trace := tr\<rparr>) = tasks_w s"
  "tasks_w (s\<lparr>waits := w\<rparr>) = tasks_w s"
  "tasks_w (s\<lparr>currentTasks := ct\<rparr>) = tasks_w s"
  "tasks_w (s\<lparr>ctxs := cs\<rparr>) = tasks_w s"
  "tasks_w (s\<lparr>futs := fs\<rparr>) = tasks_w s"
  "tasks_w (s\<lparr>pendingCallbacks := pc\<rparr>) = tasks_w s"
  "tasks_w (upd_fut f g s) = tasks_w s"
  by (simp_all add: tasks_w_def upd_fut_def)

lemma pending_w_simps [simp]:
  "pending_w (s\<lparr>panicked := p\<rparr>) = pending_w s"
  "pending_w (s\<lparr>trace := tr\<rparr>) = pending_w s"
  "pending_w (s\<lparr>waits := w\<rparr>) = pending_w s"
  "pending_w (s\<lparr>currentTasks := ct\<rparr>) = pending_w s"
  "pending_w (s\<lparr>ctxs := cs\<rparr>) = pending_w s"
  "pending_w (s\<lparr>tasks := ts\<rparr>) = pending_w s"
  "pending_w (s\<lparr>pendingCallbacks := pc\<rparr>) = pending_w s"
  "pending_w (upd_task t h s) = pending_w s"
  by (simp_all add: pending_w_def upd_task_def)

lemma tasks_w_upd_less:
  "t < length (tasks s) \<Longrightarrow> task_w (g (tasks s ! t)) < task_w (tasks s ! t) \<Longrightarrow>
   tasks_w (upd_task t g s) < tasks_w s"
  by (simp add: tasks_w_def upd_task_def sum_list_update_less)

lemma tasks_w_upd_eq:
  "task_w (g (tasks s ! t)) = task_w (tasks s ! t) \<Longrightarrow> tasks_w (upd_task t g s) = tasks_w s"
  by (simp add: tasks_w_def upd_task_def sum_list_update_eq)

lemma tasks_w_upd_le:
  "task_w (g (tasks s ! t)) \<le> task_w (tasks s ! t) \<Longrightarrow> tasks_w (upd_task t g s) \<le> tasks_w s"
  by (simp add: tasks_w_def upd_task_def sum_list_update_le)

lemma pending_w_upd_less:
  "f < length (futs s) \<Longrightarrow> \<not> f_done (futs s ! f) \<Longrightarrow> f_done (g (futs s ! f)) \<Longrightarrow>
   pending_w (upd_fut f g s) < pending_w s"
  by (simp add: pending_w_def upd_fut_def sum_list_update_less)

lemma pending_w_upd_eq:
  "f_done (g (futs s ! f)) = f_done (futs s ! f) \<Longrightarrow> pending_w (upd_fut f g s) = pending_w s"
  by (simp add: pending_w_def upd_fut_def sum_list_update_eq)

lemma upd_task_commute [simp]:
  "upd_task t g (s\<lparr>currentTasks := ct\<rparr>) = (upd_task t g s)\<lparr>currentTasks := ct\<rparr>"
  "upd_fut f h (s\<lparr>currentTasks := ct\<rparr>) = (upd_fut f h s)\<lparr>currentTasks := ct\<rparr>"
  by (simp_all add: upd_task_def upd_fut_def)

lemma smaller_SetResult: "smaller (SetResult_step f v e s) (WSetResult f v e, s)"
  by (auto simp: smaller_def SetResult_step_def do_panic_def works_w_def pending_w_upd_less)

lemma works_w_uactions: "sum_list (map (work_w \<circ> uaction_work) acts) = length acts"
  by (induction acts) (auto simp: uaction_work_def split: uaction.splits)

lemma smaller_call: "smaller (call cb v e s) (WCall cb v e, s)"
  by (cases cb)
     (auto simp: smaller_def works_w_uactions Wait_callback_def TaskDone_callback_def
        do_panic_def works_w_def Let_def split: option.splits)

lemma smaller_Step: "smaller (Step_step t s) (WStep t, s)"
  by (auto simp: smaller_def Step_step_def do_panic_def works_w_def Let_def task_w_def
        tasks_w_upd_less tasks_w_upd_eq split: phase.splits option.splits)

lemma smaller_Body: "smaller (Body_step t s) (WBody t, s)"
  by (auto simp: smaller_def Body_step_def yielder_def do_panic_def works_w_def Let_def task_w_def
        tasks_w_upd_less tasks_w_upd_eq split: coro.splits option.splits)

lemma smaller_continue:
  "t < length (tasks s) \<Longrightarrow> phase (tasks s ! t) = Yielding \<Longrightarrow>
   coro_size k < coro_size (body (tasks s ! t)) \<Longrightarrow>
   smaller (continue_with t k s) (WYieldRet t b, s)"
  by (auto simp: smaller_def continue_with_def task_w_def tasks_w_upd_less)

lemma smaller_YieldRet: "smaller (YieldRet_step t b s) (WYieldRet t b, s)"
  by (auto simp: YieldRet_step_def Let_def smaller_continue split: coro.splits sum.splits)
     (auto simp: smaller_def do_panic_def works_w_def)

lemma smaller_Finish:
  "smaller ([], if t < length (tasks s) then upd_task t (\<lambda>x. x\<lparr>phase := Finished, next_ok := False\<rparr>) s else s)
     (WFinish t, s)"
proof -
  have "tasks_w (upd_task t (\<lambda>x. x\<lparr>phase := Finished, next_ok := False\<rparr>) s) \<le> tasks_w s"
    by (rule tasks_w_upd_le) (simp add: task_w_def)
  then show ?thesis
    by (auto simp: smaller_def works_w_def)
qed

lemma smaller_NextRet: "smaller (NextRet_step t old s) (WNextRet t old, s)"
  by (auto simp: smaller_def NextRet_step_def do_panic_def works_w_def Let_def task_w_def
        RunCallback_def ScheduleCallback_def
        tasks_w_upd_eq pending_w_upd_eq split: option.splits)

lemma smaller_LoopCb: "smaller (LoopCb_step fn s) (WLoopCb fn, s)"
  by (auto simp: smaller_def LoopCb_step_def do_panic_def works_w_def split: loopfn.splits option.splits)

lemma smaller_step: "smaller (step w s) (w, s)"
  by (cases w)
     (simp_all add: smaller_SetResult smaller_call smaller_Step smaller_Body smaller_YieldRet
        smaller_Finish smaller_NextRet smaller_LoopCb,
      simp add: smaller_def ctx_cancel_def works_w_def)

text \<open>
  A call runs to completion before the next statement of its caller: the work list is
  the stack of what is still to do, the head first. A panic ends the run.
\<close>

function run :: "('v::zero) work list \<Rightarrow> 'v state \<Rightarrow> 'v state" where
  "run [] s = s"
| "run (w # ws) s =
     (if panicked s \<noteq> None then s
      else run (fst (step w s) @ ws) (snd (step w s)))"
  by pat_completeness auto
termination
proof (relation "measures [\<lambda>(ws, s). tasks_w s, \<lambda>(ws, s). pending_w s,
         \<lambda>(ws, s). works_w ws]", goal_cases)
  case 1
  show ?case by simp
next
  case (2 w ws s)
  from smaller_step[of w s] show ?case
    by (auto simp: smaller_def works_w_def)
qed

declare run.simps(2) [simp del]

subsection \<open>Future operations, Wait, SpawnTask and the dispatch of the loop\<close>

text \<open>
  The exported operations, each a call run to completion: \<open>SetResult\<close>, \<open>Cancel\<close> (lines
  122 to 128), \<open>AddResultCallback\<close> (lines 89 to 96) and \<open>Shield\<close> (lines 130 to 145).
\<close>

definition SetResult :: "fid \<Rightarrow> 'v \<Rightarrow> error option \<Rightarrow> ('v::zero) state \<Rightarrow> 'v state" where
  "SetResult f v e s = run [WSetResult f v e] s"

definition Cancel :: "fid \<Rightarrow> error option \<Rightarrow> ('v::zero) state \<Rightarrow> 'v state" where
  "Cancel f e s = SetResult f 0 (Some (canc e)) s"

definition AddResultCallback :: "fid \<Rightarrow> 'v callback \<Rightarrow> ('v::zero) state \<Rightarrow> 'v state" where
  "AddResultCallback f cb s =
     (if HasResult s f then run [WCall cb (f_result (futs s ! f)) (f_err (futs s ! f))] s
      else upd_fut f (\<lambda>x. x\<lparr>f_callbacks := f_callbacks x @ [cb]\<rparr>) s)"

definition Shield :: "fid \<Rightarrow> ('v::zero) state \<Rightarrow> fid \<times> 'v state" where
  "Shield f s =
     (if HasResult s f then (f, s)
      else
        (let fut = fst (NewFuture s); s1 = snd (NewFuture s);
             s2 = AddResultCallback f (CbShieldFwd fut) s1;
             s3 = AddResultCallback fut (CbShieldBack f) s2
         in (fut, s3)))"

text \<open>
  \<open>Wait\<close>: the futures are given by their result futures (a task delegates
  \<open>AddDoneCallback\<close> to its result future).
\<close>

definition Wait :: "WaitMode \<Rightarrow> fid list \<Rightarrow> ('v::zero) state \<Rightarrow> fid \<times> 'v state" where
  "Wait mode fs s =
     (let waitFut = fst (NewFuture s); s1 = snd (NewFuture s);
          w = length (waits s1);
          s2 = s1\<lparr>waits := waits s1 @
                 [\<lparr>w_mode = mode, w_len = length fs, w_done = 0, w_futErr = None,
                   w_waitFut = waitFut\<rparr>]\<rparr>
      in (waitFut, foldl (\<lambda>s fut. AddResultCallback fut (CbWait w) s) s2 fs))"

text \<open>
  \<open>SpawnTask\<close>. \<open>iter.Pull\<close> only builds the iterator: the function it wraps (which
  sets the yielder and calls the coroutine) starts at the first \<open>next()\<close>. The program has
  one loop, so \<open>RunningLoop(ctx)\<close> is that loop.
\<close>

definition WithCancelCause :: "cid \<Rightarrow> 'v state \<Rightarrow> cid \<times> 'v state" where
  "WithCancelCause ctx s =
     (length (ctxs s), s\<lparr>ctxs := ctxs s @ [\<lparr>c_parent = Some ctx, c_cause = None\<rparr>]\<rparr>)"

definition SpawnTask :: "cid \<Rightarrow> 'v coro \<Rightarrow> ('v::zero) state \<Rightarrow> tid \<times> 'v state" where
  "SpawnTask ctx coro s =
     (let c = fst (WithCancelCause ctx s); s1 = snd (WithCancelCause ctx s);
          rf = fst (NewFuture s1); s2 = snd (NewFuture s1);
          t = length (tasks s2);
          s3 = s2\<lparr>tasks := tasks s2 @
                 [\<lparr>t_ctx = c, resultFut = rf, pendingFut = None, body = coro,
                   phase = NotStarted, next_ok = False\<rparr>]\<rparr>;
          s4 = AddResultCallback rf (CbTaskDone t) s3;
          s5 = RunCallback (LcSpawnStart t) s4
      in (t, s5))"

text \<open>
  \<open>Task.Cancel\<close>.
\<close>

definition Task_Cancel :: "tid \<Rightarrow> error option \<Rightarrow> ('v::zero) state \<Rightarrow> 'v state" where
  "Task_Cancel t e s = Cancel (resultFut (tasks s ! t)) e s"

text \<open>\<open>callbackQueue.RunFirst\<close>: peek, pop, call.\<close>

definition RunFirst :: "('v::zero) state \<Rightarrow> 'v state" where
  "RunFirst s =
     (case Peek (pendingCallbacks s) of
        Inl p \<Rightarrow> s\<lparr>panicked := Some p\<rparr>
      | Inr head \<Rightarrow>
          run [WLoopCb (cb_fn head)] (s\<lparr>pendingCallbacks := heap_Pop (pendingCallbacks s)\<rparr>))"

subsection \<open>Queue\<close>

text \<open>
  \<open>Queue\<close>: the items and the futures of the waiters.
\<close>

record 'v Queue =
  q_data :: "'v list"
  q_futs :: "fid list"

text \<open>
  \<open>Queue.Get\<close> (lines 785 to 795).
\<close>

definition Queue_Get :: "'v Queue \<Rightarrow> ('v::zero) state \<Rightarrow> fid \<times> 'v Queue \<times> 'v state" where
  "Queue_Get q s =
     (let fut = fst (NewFuture s); s1 = snd (NewFuture s)
      in if length (q_data q) > 0 then
           (let item = hd (q_data q); q1 = q\<lparr>q_data := tl (q_data q)\<rparr>;
                s2 = SetResult fut item None s1
            in (fut, q1\<lparr>q_futs := q_futs q1 @ [fut]\<rparr>, s2))
         else (fut, q\<lparr>q_futs := q_futs q @ [fut]\<rparr>, s1))"

text \<open>
  \<open>Queue.Push\<close> (lines 797 to 810): append the item, then the loop.
\<close>

function Push_loop :: "'v Queue \<Rightarrow> ('v::zero) state \<Rightarrow> 'v Queue \<times> 'v state" where
  "Push_loop q s =
     (if length (q_futs q) > 0 \<and> length (q_data q) > 0 then
        (if HasResult s (hd (q_futs q)) then Push_loop (q\<lparr>q_futs := tl (q_futs q)\<rparr>) s
         else Push_loop (q\<lparr>q_futs := tl (q_futs q), q_data := tl (q_data q)\<rparr>)
                (SetResult (hd (q_futs q)) (hd (q_data q)) None s))
      else (q, s))"
  by pat_completeness auto
termination
  by (relation "measure (\<lambda>(q, s). length (q_futs q))") auto

declare Push_loop.simps [simp del]

definition Queue_Push :: "'v Queue \<Rightarrow> 'v \<Rightarrow> ('v::zero) state \<Rightarrow> 'v Queue \<times> 'v state" where
  "Queue_Push q item s = Push_loop (q\<lparr>q_data := q_data q @ [item]\<rparr>) s"

subsection \<open>Await from library code, and Mutex\<close>

text \<open>
  \<open>Future.Await\<close> as library code running inside a coroutine calls it, up to the point
  where the coroutine suspends: \<open>RunningLoop(ctx).Yield\<close> finds the running task on top of
  the task stack and calls its yielder (lines 179 to 192), which either returns at once
  or suspends in \<open>yield(fut)\<close>; when it returns nil, \<open>Await\<close> returns \<open>f.Result()\<close>.
\<close>

datatype 'v await_out =
    AwaitSuspended
  | AwaitReturned 'v "error option"
  | AwaitPanicked panic

definition Future_Await :: "fid \<Rightarrow> cid \<Rightarrow> ('v::zero) state \<Rightarrow> 'v await_out \<times> 'v state" where
  "Future_Await f cx s =
     (if currentTasks s = [] then (AwaitPanicked IndexOutOfRange, s\<lparr>panicked := Some IndexOutOfRange\<rparr>)
      else if last (currentTasks s) \<ge> length (tasks s)
      then (AwaitPanicked NilDereference, s\<lparr>panicked := Some NilDereference\<rparr>)
      else
        (let t = last (currentTasks s); task = tasks s ! t
         in case ctx_Cause (ctxs s) (t_ctx task) of
              Some err \<Rightarrow>
                (let s2 = run [WSetResult (resultFut task) 0 (Some err), WSetResult f 0 (Some err)] s
                 in case panicked s2 of
                      Some p \<Rightarrow> (AwaitPanicked p, s2)
                    | None \<Rightarrow>
                       (case Err s2 (resultFut task) of
                          Some e \<Rightarrow> (AwaitReturned 0 (Some e), s2)
                        | None \<Rightarrow>
                           (case Result s2 f of
                              Inl p \<Rightarrow> (AwaitPanicked p, s2\<lparr>panicked := Some p\<rparr>)
                            | Inr r \<Rightarrow> (AwaitReturned (fst r) (snd r), s2))))
            | None \<Rightarrow>
                (case ctx_Err (ctxs s) cx of
                   Some err \<Rightarrow> (AwaitReturned 0 (Some err), run [WSetResult f 0 (Some err)] s)
                 | None \<Rightarrow>
                    (AwaitSuspended,
                     upd_task t (\<lambda>x. x\<lparr>phase := Suspended, pendingFut := Some f, next_ok := True\<rparr>) s))))"

lemma Future_Await_returned_nil:
  "Future_Await f cx s = (AwaitReturned v None, s') \<Longrightarrow> HasResult s' f"
  by (auto simp: Future_Await_def Let_def Result_def HasResult_def
        split: if_splits option.splits sum.splits)

text \<open>
  \<open>Mutex\<close>.
\<close>

record Mutex =
  unlockFut :: "fid option"

text \<open>
  How a call of \<open>Lock\<close> goes on: it returns nil, it returns an error, the coroutine
  suspends on a future, or the program panics.
\<close>

datatype lock_out =
    Locked
  | LockFailed error
  | LockSuspended fid
  | LockPanicked panic

text \<open>
  \<open>Mutex.Lock\<close>, up to its return or to the point where the coroutine suspends in
  \<open>Await\<close> (it goes on from the top of the loop when it is resumed).
\<close>

function Mutex_Lock :: "Mutex \<Rightarrow> cid \<Rightarrow> ('v::zero) state \<Rightarrow> lock_out \<times> Mutex \<times> 'v state" where
  "Mutex_Lock m cx s =
     (if unlockFut m = None \<or> HasResult s (the (unlockFut m)) then
        (Locked, m\<lparr>unlockFut := Some (fst (NewFuture s))\<rparr>, snd (NewFuture s))
      else
        (case fst (Future_Await (the (unlockFut m)) cx s) of
           AwaitSuspended \<Rightarrow>
             (LockSuspended (the (unlockFut m)), m, snd (Future_Await (the (unlockFut m)) cx s))
         | AwaitPanicked p \<Rightarrow> (LockPanicked p, m, snd (Future_Await (the (unlockFut m)) cx s))
         | AwaitReturned v (Some e) \<Rightarrow>
             (LockFailed e, m, snd (Future_Await (the (unlockFut m)) cx s))
         | AwaitReturned v None \<Rightarrow>
             Mutex_Lock m cx (snd (Future_Await (the (unlockFut m)) cx s))))"
  by pat_completeness auto
termination
proof (relation "measure (\<lambda>(m, cx, s).
         if unlockFut m = None \<or> HasResult s (the (unlockFut m)) then 0 else 1)", goal_cases)
  case 1
  show ?case by simp
next
  case (2 m cx s v e)
  then have "Future_Await (the (unlockFut m)) cx s
      = (AwaitReturned v None, snd (Future_Await (the (unlockFut m)) cx s))"
    by (metis prod.collapse)
  from Future_Await_returned_nil[OF this] 2 show ?case by simp
qed

declare Mutex_Lock.simps [simp del]

text \<open>
  \<open>Mutex.Unlock\<close>.
\<close>

definition Mutex_Unlock :: "Mutex \<Rightarrow> ('v::zero) state \<Rightarrow> 'v state" where
  "Mutex_Unlock m s = (case unlockFut m of None \<Rightarrow> s | Some f \<Rightarrow> SetResult f 0 None s)"

section \<open>What the properties speak of\<close>

text \<open>
  The futures a closure, a coroutine, a task or a piece of work holds. The closure of a
  \<open>Wait\<close> call holds the future that call returned.
\<close>

fun uaction_fid :: "'v uaction \<Rightarrow> fid" where
  "uaction_fid (USetResult f v e) = f"
| "uaction_fid (UCancel f e) = f"

fun cb_fids :: "fid list \<Rightarrow> 'v callback \<Rightarrow> fid set" where
  "cb_fids wfs (CbUser l acts) = uaction_fid ` set acts"
| "cb_fids wfs (CbShieldFwd g) = {g}"
| "cb_fids wfs (CbShieldBack g) = {g}"
| "cb_fids wfs (CbWait w) = (if w < length wfs then {wfs ! w} else {})"
| "cb_fids wfs (CbTaskDone t) = {}"
| "cb_fids wfs (CbStep t) = {}"

fun coro_fids :: "'v coro \<Rightarrow> fid set" where
  "coro_fids (Return v e) = {}"
| "coro_fids (Await f k1 k2) = insert f (coro_fids k1 \<union> coro_fids k2)"
| "coro_fids (YieldNil k1 k2) = coro_fids k1 \<union> coro_fids k2"

definition task_fids :: "'v task \<Rightarrow> fid set" where
  "task_fids t = insert (resultFut t) (set_option (pendingFut t) \<union> coro_fids (body t))"

fun loopfn_fids :: "loopfn \<Rightarrow> fid set" where
  "loopfn_fids (LcSetResult f) = {f}"
| "loopfn_fids _ = {}"

fun work_fids :: "fid list \<Rightarrow> 'v work \<Rightarrow> fid set" where
  "work_fids wfs (WSetResult f v e) = {f}"
| "work_fids wfs (WCall cb v e) = cb_fids wfs cb"
| "work_fids wfs (WLoopCb fn) = loopfn_fids fn"
| "work_fids wfs _ = {}"

text \<open>
  The futures returned by the \<open>Wait\<close> calls made so far.
\<close>

definition wait_futs :: "'v state \<Rightarrow> fid list" where
  "wait_futs s = map w_waitFut (waits s)"

text \<open>
  No closure that can still run holds the future \<open>x\<close>: no callback of a pending future
  (the callbacks of a completed future never run again), no task and no callback of the
  loop.
\<close>

definition avoids :: "fid \<Rightarrow> 'v state \<Rightarrow> bool" where
  "avoids x s =
     ((\<forall>i < length (futs s). \<not> f_done (futs s ! i) \<longrightarrow>
         (\<forall>cb \<in> set (f_callbacks (futs s ! i)). x \<notin> cb_fids (wait_futs s) cb))
      \<and> (\<forall>t < length (tasks s). x \<notin> task_fids (tasks s ! t))
      \<and> (\<forall>c \<in> set (pendingCallbacks s). x \<notin> loopfn_fids (cb_fn c)))"

text \<open>
  No piece of the work holds the future \<open>x\<close>.
\<close>

definition works_avoid :: "fid \<Rightarrow> 'v state \<Rightarrow> 'v work list \<Rightarrow> bool" where
  "works_avoid x s ws = (\<forall>w \<in> set ws. x \<notin> work_fids (wait_futs s) w)"

subsection \<open>States written out\<close>

text \<open>\<open>NewEventLoop\<close> with the background context: nothing scheduled, nothing created.\<close>

definition init_state :: "('v::zero) state" where
  "init_state = \<lparr>futs = [], ctxs = [\<lparr>c_parent = None, c_cause = None\<rparr>], tasks = [], waits = [],
     pendingCallbacks = [], currentTasks = [], clock = 0, trace = [], panicked = None\<rparr>"

text \<open>What \<open>SetResult\<close> writes into a pending future.\<close>

definition completed :: "'v \<Rightarrow> error option \<Rightarrow> 'v future \<Rightarrow> 'v future" where
  "completed v e x = x\<lparr>f_result := v, f_err := e, f_done := True\<rparr>"

text \<open>
  A loop with one pending future, whose callback completes that same future again.
\<close>

definition wstate :: "int state" where
  "wstate = init_state\<lparr>futs := [new_future\<lparr>f_callbacks := [CbUser 7 [USetResult 0 9 None]]\<rparr>]\<rparr>"

text \<open>A user callback that only observes its call.\<close>

definition observer :: "label \<Rightarrow> 'v callback" where
  "observer l = CbUser l []"

text \<open>
  A loop with one pending future that has two observers.
\<close>

definition cstate :: "int state" where
  "cstate = init_state\<lparr>futs := [new_future\<lparr>f_callbacks := [observer 1, observer 2]\<rparr>]\<rparr>"

text \<open>
  The state \<open>Shield f\<close> returns for a pending \<open>f\<close>, written out.
\<close>

definition shielded :: "fid \<Rightarrow> ('v::zero) state \<Rightarrow> 'v state" where
  "shielded f s =
     s\<lparr>futs := (futs s)[f := (futs s ! f)\<lparr>f_callbacks :=
                 f_callbacks (futs s ! f) @ [CbShieldFwd (length (futs s))]\<rparr>]
               @ [new_future\<lparr>f_callbacks := [CbShieldBack f]\<rparr>]\<rparr>"

text \<open>
  A loop with one pending future that has an observer.
\<close>

definition shstate :: "int state" where
  "shstate = init_state\<lparr>futs := [new_future\<lparr>f_callbacks := [observer 1]\<rparr>]\<rparr>"

text \<open>Every \<open>Wait\<close> closure that can still run belongs to a \<open>Wait\<close> call already made.\<close>

fun cb_wait_ok :: "nat \<Rightarrow> 'v callback \<Rightarrow> bool" where
  "cb_wait_ok n (CbWait w) = (w < n)"
| "cb_wait_ok n _ = True"

definition wait_closed :: "'v state \<Rightarrow> bool" where
  "wait_closed s =
     (\<forall>i < length (futs s). \<not> f_done (futs s ! i) \<longrightarrow>
        (\<forall>cb \<in> set (f_callbacks (futs s ! i)). cb_wait_ok (length (waits s)) cb))"

text \<open>
  The state \<open>Wait\<close> returns for no futures, written out.
\<close>

definition waiting :: "WaitMode \<Rightarrow> ('v::zero) state \<Rightarrow> 'v state" where
  "waiting mode s =
     s\<lparr>futs := futs s @ [new_future],
       waits := waits s @ [\<lparr>w_mode = mode, w_len = 0, w_done = 0, w_futErr = None,
                             w_waitFut = length (futs s)\<rparr>]\<rparr>"

text \<open>
  A task that awaits the future \<open>Wait\<close> returned for no futures: \<open>Wait\<close>, then \<open>SpawnTask\<close>
  of a coroutine that awaits that future, then the loop runs the start callback, and the
  task suspends on the future.
\<close>

definition wait_awaited :: "int state" where
  "wait_awaited =
     RunFirst (snd (SpawnTask 0 (Await 0 (Return 1 None) (Return 0 (Some EOF)))
       (snd (Wait WaitAll [] init_state))))"

text \<open>
  An empty queue.
\<close>

definition empty_queue :: "int Queue" where
  "empty_queue = \<lparr>q_data = [], q_futs = []\<rparr>"

text \<open>The queue and the state after \<open>Push 1\<close>, \<open>Push 2\<close> on an empty queue.\<close>

definition pushed2 :: "int Queue \<times> int state" where
  "pushed2 = Queue_Push (fst (Queue_Push empty_queue 1 init_state)) 2
               (snd (Queue_Push empty_queue 1 init_state))"

subsection \<open>Which tasks a state can still advance\<close>

text \<open>The task whose coroutine a loop callback or a piece of work advances, if any.\<close>

fun loop_tid :: "loopfn \<Rightarrow> tid option" where
  "loop_tid (LcSpawnStart t) = Some t"
| "loop_tid (LcStep t) = Some t"
| "loop_tid _ = None"

fun work_tid :: "'v work \<Rightarrow> tid option" where
  "work_tid (WStep t) = Some t"
| "work_tid (WBody t) = Some t"
| "work_tid (WYieldRet t b) = Some t"
| "work_tid (WFinish t) = Some t"
| "work_tid (WNextRet t old) = Some t"
| "work_tid (WCall (CbStep t) v e) = Some t"
| "work_tid (WLoopCb fn) = loop_tid fn"
| "work_tid _ = None"

text \<open>No callback that can still run steps the task \<open>t\<close>.\<close>

definition tavoids :: "tid \<Rightarrow> 'v state \<Rightarrow> bool" where
  "tavoids t s =
     (\<forall>i < length (futs s). \<not> f_done (futs s ! i) \<longrightarrow> CbStep t \<notin> set (f_callbacks (futs s ! i)))"

text \<open>
  No piece of the work advances the task \<open>t\<close>.
\<close>

definition works_tavoid :: "tid \<Rightarrow> 'v work list \<Rightarrow> bool" where
  "works_tavoid t ws = (\<forall>w \<in> set ws. work_tid w \<noteq> Some t)"

text \<open>
  The task \<open>t\<close> has not started, its result future is done, and no callback that can
  still run steps it.
\<close>

definition settled_unstarted :: "tid \<Rightarrow> 'v state \<Rightarrow> bool" where
  "settled_unstarted t s =
     (t < length (tasks s) \<and> resultFut (tasks s ! t) < length (futs s)
      \<and> f_done (futs s ! resultFut (tasks s ! t)) \<and> tavoids t s)"

text \<open>Work that does not advance \<open>t\<close>, but for the start callback of \<open>SpawnTask\<close>.\<close>

definition works_start_only :: "tid \<Rightarrow> 'v work list \<Rightarrow> bool" where
  "works_start_only t ws =
     (\<forall>w \<in> set ws. work_tid w \<noteq> Some t \<or> w = WLoopCb (LcSpawnStart t))"

text \<open>The state \<open>SpawnTask\<close> returns, written out.\<close>

definition spawned :: "cid \<Rightarrow> 'v coro \<Rightarrow> ('v::zero) state \<Rightarrow> 'v state" where
  "spawned ctx coro s =
     s\<lparr>ctxs := ctxs s @ [\<lparr>c_parent = Some ctx, c_cause = None\<rparr>],
       futs := futs s @ [new_future\<lparr>f_callbacks := [CbTaskDone (length (tasks s))]\<rparr>],
       tasks := tasks s @
         [\<lparr>t_ctx = length (ctxs s), resultFut = length (futs s), pendingFut = None,
           body = coro, phase = NotStarted, next_ok = False\<rparr>],
       pendingCallbacks := heap_Push (pendingCallbacks s)
         \<lparr>cb_fn = LcSpawnStart (length (tasks s)), cb_when = clock s\<rparr>\<rparr>"

text \<open>
  The state after \<open>SpawnTask\<close> and then \<open>Cancel(nil)\<close> on the task, written out.
\<close>

definition cancelled_spawn :: "cid \<Rightarrow> 'v coro \<Rightarrow> ('v::zero) state \<Rightarrow> 'v state" where
  "cancelled_spawn ctx coro s =
     ctx_cancel (length (ctxs s)) (Some Canceled)
       (upd_fut (length (futs s)) (completed 0 (Some Canceled)) (spawned ctx coro s))"

text \<open>Three tasks on a fresh loop, and the state while the coroutine of \<open>t\<close> runs.\<close>

definition three_tasks :: "int state" where
  "three_tasks =
     snd (SpawnTask 0 (Return 0 None)
       (snd (SpawnTask 0 (Return 0 None)
         (snd (SpawnTask 0 (Return 0 None) init_state)))))"

definition running :: "tid \<Rightarrow> 'v state \<Rightarrow> 'v state" where
  "running t s = s\<lparr>currentTasks := [t]\<rparr>"

text \<open>
  Task 1 is cancelled; then task 0 calls \<open>Lock\<close>, then task 1, then task 2, each with the
  context of its task. Nobody calls \<open>Unlock\<close>.
\<close>

definition after_lock1 :: "lock_out \<times> Mutex \<times> int state" where
  "after_lock1 = Mutex_Lock \<lparr>unlockFut = None\<rparr> 1 (running 0 (Task_Cancel 1 None three_tasks))"

definition after_lock2 :: "lock_out \<times> Mutex \<times> int state" where
  "after_lock2 = Mutex_Lock (fst (snd after_lock1)) 2 (running 1 (snd (snd after_lock1)))"

definition after_lock3 :: "lock_out \<times> Mutex \<times> int state" where
  "after_lock3 = Mutex_Lock (fst (snd after_lock2)) 3 (running 2 (snd (snd after_lock2)))"

section \<open>Facts\<close>

subsection \<open>Reading\<close>

lemma read_loop_ok:
  "list_all ok_event (a_file a) \<Longrightarrow> length (a_buffer a) < m \<Longrightarrow>
   read_loop a m = ((n, e), a') \<Longrightarrow>
     n = length (a_buffer a') \<and> list_all ok_event (a_file a')
     \<and> a_buffer a' @ input_bytes (a_file a') = a_buffer a @ input_bytes (a_file a)
     \<and> (\<exists>bs. a_buffer a' = a_buffer a @ bs)
     \<and> (e = None \<or> e = Some EOF \<and> a_file a' = [])"
proof (induction "length (a_file a)" arbitrary: a rule: less_induct)
  case less
  show ?case
  proof (cases "a_file a")
    case Nil
    with less.prems(3) read_loop.simps[of a m] show ?thesis
      by (auto simp: Let_def file_Read_def input_bytes_def)
  next
    case (Cons ev es)
    show ?thesis
    proof (cases ev)
      case (Bytes bs)
      with Cons less.prems read_loop.simps[of a m] show ?thesis
        by (auto simp: Let_def file_Read_def input_bytes_def split: if_splits)
    next
      case (WouldBlock w)
      with Cons less.prems have w: "w = None" and es: "list_all ok_event es" by simp_all
      let ?a2 = "a\<lparr>a_file := es\<rparr>"
      from less.prems(3) Cons WouldBlock w read_loop.simps[of a m]
      have "read_loop ?a2 m = ((n, e), a')"
        by (simp add: Let_def file_Read_def file_WaitForReady_def)
      from less.hyps[of ?a2, OF _ _ _ this] Cons es less.prems(2) WouldBlock
      show ?thesis by (simp add: input_bytes_def)
    next
      case (Failure x)
      with Cons less.prems show ?thesis by simp
    qed
  qed
qed

lemma scan_eq:
  "scan xs ch i = (if ch \<in> set xs then Some (i + length (takeWhile (\<lambda>b. b \<noteq> ch) xs)) else None)"
  by (induction xs arbitrary: i) auto

lemma scan_from_eq:
  "ch \<notin> set (take k xs) \<Longrightarrow> k \<le> length xs \<Longrightarrow>
   scan_from xs ch k = (if ch \<in> set xs then Some (length (takeWhile (\<lambda>b. b \<noteq> ch) xs)) else None)"
proof -
  assume a: "ch \<notin> set (take k xs)" and k: "k \<le> length xs"
  have split: "xs = take k xs @ drop k xs" by simp
  from a have tw: "takeWhile (\<lambda>b. b \<noteq> ch) xs = take k xs @ takeWhile (\<lambda>b. b \<noteq> ch) (drop k xs)"
    by (subst split, subst takeWhile_append2) auto
  have mem: "ch \<in> set xs \<longleftrightarrow> ch \<in> set (drop k xs)"
    using a by (subst split, subst set_append) blast
  show ?thesis
    unfolding scan_from_def scan_eq mem
    using k by (subst tw) auto
qed

lemma take_Suc_takeWhile:
  "ch \<in> set xs \<Longrightarrow>
   take (Suc (length (takeWhile (\<lambda>b. b \<noteq> ch) xs))) xs = takeWhile (\<lambda>b. b \<noteq> ch) xs @ [ch]"
  by (induction xs) auto

lemma drop_Suc_takeWhile:
  "ch \<in> set xs \<Longrightarrow>
   drop (Suc (length (takeWhile (\<lambda>b. b \<noteq> ch) xs))) xs = tl (dropWhile (\<lambda>b. b \<noteq> ch) xs)"
  by (induction xs) auto

lemma length_takeWhile_first:
  "ch \<in> set xs \<Longrightarrow> length (takeWhile (\<lambda>b. b \<noteq> ch) xs) < length xs"
  by (induction xs) auto

lemma consume_at_first:
  "ch \<in> set (a_buffer a) \<Longrightarrow>
   consume a (Suc (length (takeWhile (\<lambda>b. b \<noteq> ch) (a_buffer a)))) =
     (takeWhile (\<lambda>b. b \<noteq> ch) (a_buffer a) @ [ch],
      a\<lparr>a_buffer := tl (dropWhile (\<lambda>b. b \<noteq> ch) (a_buffer a))\<rparr>)"
proof -
  assume m: "ch \<in> set (a_buffer a)"
  have "length (takeWhile (\<lambda>b. b \<noteq> ch) (a_buffer a)) < length (a_buffer a)"
    using m by (rule length_takeWhile_first)
  then show ?thesis
    using m by (simp add: consume_def Let_def min_def take_Suc_takeWhile drop_Suc_takeWhile)
qed

lemma read_ok:
  assumes "list_all ok_event (a_file a)" and "read a m = ((n, e), a')"
  shows "list_all ok_event (a_file a')"
    and "a_buffer a' @ input_bytes (a_file a') = a_buffer a @ input_bytes (a_file a)"
    and "\<exists>bs. a_buffer a' = a_buffer a @ bs"
    and "e = None \<or> e = Some EOF \<and> a_file a' = []"
    and "length (a_buffer a) < m \<Longrightarrow> n = length (a_buffer a')"
    and "m \<le> length (a_buffer a) \<Longrightarrow> n = m \<and> a' = a \<and> e = None"
  using assms read_loop_ok[of a m n e a']
  by (auto simp: read_def split: if_splits)

lemma ReadUntil_loop_ok:
  "list_all ok_event (a_file a) \<Longrightarrow> ch \<notin> set (a_buffer a) \<Longrightarrow>
   fst (ReadUntil_loop a ch k) = ReadUntil_spec (a_buffer a @ input_bytes (a_file a)) ch"
proof (induction a ch k rule: ReadUntil_loop.induct)
  case (1 a ch k)
  let ?m = "1024 * 2 ^ k"
  obtain n e a1 where r: "read a ?m = ((n, e), a1)" by (metis prod.exhaust)
  note ok = read_ok[OF "1.prems"(1) r]
  let ?all = "a_buffer a @ input_bytes (a_file a)"
  from ok(3) obtain bs where bs: "a_buffer a1 = a_buffer a @ bs" by blast
  have from_ok: "ch \<notin> set (take (length (a_buffer a1) - n) (a_buffer a1))"
    and from_le: "length (a_buffer a1) - n \<le> length (a_buffer a1)"
    using ok(5,6) "1.prems"(2) by (cases "length (a_buffer a) < ?m"; auto dest: in_set_takeD)+
  note sc = scan_from_eq[OF from_ok from_le]
  show ?case
  proof (cases "ch \<in> set (a_buffer a1)")
    case True
    then have "ch \<in> set ?all" using ok(2) by (metis Un_iff set_append)
    moreover have "takeWhile (\<lambda>b. b \<noteq> ch) ?all = takeWhile (\<lambda>b. b \<noteq> ch) (a_buffer a1)"
      using True by (simp add: ok(2)[symmetric] takeWhile_append1)
    ultimately show ?thesis
      using True r sc
      by (subst ReadUntil_loop.simps) (simp add: Let_def ReadUntil_spec_def consume_at_first)
  next
    case False
    show ?thesis
    proof (cases e)
      case None
      have rec: "fst (ReadUntil_loop a ch k) =
          fst (ReadUntil_loop a1 ch (if ?m \<le> length (a_buffer a1) then Suc k else k))"
        using False r sc None by (subst ReadUntil_loop.simps) (simp add: Let_def)
      have ih1: "fst (ReadUntil_loop a1 ch (Suc k))
          = ReadUntil_spec (a_buffer a1 @ input_bytes (a_file a1)) ch"
        if "?m \<le> length (a_buffer a1)"
        using "1.IH"(1)[OF refl refl refl refl refl] r sc False None ok(1) that by simp
      have ih2: "fst (ReadUntil_loop a1 ch k)
          = ReadUntil_spec (a_buffer a1 @ input_bytes (a_file a1)) ch"
        if "\<not> ?m \<le> length (a_buffer a1)"
        using "1.IH"(2)[OF refl refl refl refl refl] r sc False None ok(1) that by simp
      from rec ih1 ih2 show ?thesis by (simp add: ok(2))
    next
      case (Some x)
      with ok(4) have eof: "e = Some EOF" and fin: "a_file a1 = []" by auto
      with ok(2) have all: "?all = a_buffer a1" by (simp add: input_bytes_def)
      show ?thesis
        using False r sc eof all
        by (subst ReadUntil_loop.simps)
           (auto simp: Let_def ReadUntil_spec_def consumeAll_def)
    qed
  qed
qed

subsection \<open>Runs\<close>

lemmas step_defs = SetResult_step_def Wait_callback_def TaskDone_callback_def yielder_def
  Body_step_def continue_with_def YieldRet_step_def Step_step_def NextRet_step_def LoopCb_step_def
  do_panic_def ctx_cancel_def RunCallback_def ScheduleCallback_def upd_fut_def upd_task_def

lemma call_futs: "futs (snd (call cb v e s)) = futs s"
  by (cases cb) (auto simp: step_defs Let_def split: option.splits)

lemma step_length_futs: "length (futs (snd (step w s))) = length (futs s)"
  by (cases w)
     (auto simp: call_futs step_defs Let_def
        split: option.splits coro.splits phase.splits sum.splits loopfn.splits)

lemma step_done_stable:
  "f_done (futs s ! g) \<Longrightarrow> futs (snd (step w s)) ! g = futs s ! g"
  by (cases w)
     (auto simp: call_futs step_defs Let_def nth_list_update
        split: option.splits coro.splits phase.splits sum.splits loopfn.splits)

lemma run_panicked: "panicked s \<noteq> None \<Longrightarrow> run ws s = s"
  by (cases ws) (simp_all add: run.simps)

lemma run_append: "run (ws1 @ ws2) s = run ws2 (run ws1 s)"
proof (induction ws1 s rule: run.induct)
  case (1 s)
  show ?case by simp
next
  case (2 w ws s)
  then show ?case
    by (cases "panicked s = None") (simp_all add: run.simps run_panicked)
qed

lemma run_length_futs: "length (futs (run ws s)) = length (futs s)"
  by (induction ws s rule: run.induct) (simp_all add: run.simps step_length_futs)

lemma run_done_stable:
  "f_done (futs s ! g) \<Longrightarrow> futs (run ws s) ! g = futs s ! g"
proof (induction ws s rule: run.induct)
  case (1 s)
  show ?case by simp
next
  case (2 w ws s)
  show ?case
  proof (cases "panicked s = None")
    case True
    from "2.prems" have "f_done (futs (snd (step w s)) ! g)"
      by (simp add: step_done_stable)
    with "2.IH" True "2.prems" show ?thesis
      by (simp add: run.simps step_done_stable)
  next
    case False
    then show ?thesis by (simp add: run_panicked)
  qed
qed

subsection \<open>Futures out of reach stay as they are\<close>

lemma Swap_set: "i < length r \<Longrightarrow> j < length r \<Longrightarrow> set (Swap r i j) = set r"
  by (simp add: Swap_def set_swap)

lemma Swap_length [simp]: "length (Swap r i j) = length r"
  by (simp add: Swap_def)

lemma up_set: "j < length h \<Longrightarrow> set (up h j) = set h"
proof (induction h j rule: up.induct)
  case (1 h j)
  show ?case
  proof (cases "(j - 1) div 2 = j \<or> \<not> Less h j ((j - 1) div 2)")
    case True
    then show ?thesis by (subst up.simps) (simp add: Let_def)
  next
    case False
    have lt: "(j - 1) div 2 < length h" using "1.prems" by simp
    from False "1.IH"[OF refl] lt "1.prems" have "set (up (Swap h ((j - 1) div 2) j) ((j - 1) div 2)) = set h"
      by (simp add: Swap_set)
    with False show ?thesis by (subst up.simps) (simp add: Let_def)
  qed
qed

lemma heap_Push_set: "set (heap_Push h c) = insert c (set h)"
  by (simp add: heap_Push_def up_set)

lemma wait_futs_fields [simp]:
  "wait_futs (s\<lparr>panicked := p\<rparr>) = wait_futs s"
  "wait_futs (s\<lparr>trace := tr\<rparr>) = wait_futs s"
  "wait_futs (s\<lparr>currentTasks := ct\<rparr>) = wait_futs s"
  "wait_futs (s\<lparr>ctxs := cs\<rparr>) = wait_futs s"
  "wait_futs (s\<lparr>futs := fs\<rparr>) = wait_futs s"
  "wait_futs (s\<lparr>tasks := ts\<rparr>) = wait_futs s"
  "wait_futs (s\<lparr>pendingCallbacks := pc\<rparr>) = wait_futs s"
  "wait_futs (upd_fut f g s) = wait_futs s"
  "wait_futs (upd_task t h s) = wait_futs s"
  by (simp_all add: wait_futs_def upd_fut_def upd_task_def)

lemma waits_update_same:
  "w_waitFut wv = w_waitFut (ws ! w) \<Longrightarrow>
   map w_waitFut (ws[w := wv]) = map w_waitFut ws"
proof (cases "w < length ws")
  case True
  assume "w_waitFut wv = w_waitFut (ws ! w)"
  with True show ?thesis by (simp add: map_update list_update_same_conv)
next
  case False
  then have "ws[w := wv] = ws" by (intro list_update_beyond) simp
  then show ?thesis by simp
qed

lemma Wait_callback_wait_futs [simp]: "wait_futs (snd (Wait_callback w e s)) = wait_futs s"
  by (simp add: Wait_callback_def do_panic_def Let_def wait_futs_def waits_update_same)

lemma call_wait_futs [simp]: "wait_futs (snd (call cb v e s)) = wait_futs s"
  by (cases cb) (simp_all add: TaskDone_callback_def do_panic_def)

lemma step_wait_futs [simp]: "wait_futs (snd (step w s)) = wait_futs s"
  by (cases w)
     (simp_all add: SetResult_step_def yielder_def Body_step_def continue_with_def
        YieldRet_step_def Step_step_def NextRet_step_def LoopCb_step_def do_panic_def
        ctx_cancel_def RunCallback_def ScheduleCallback_def Let_def
        split: option.splits coro.splits phase.splits sum.splits loopfn.splits)

lemma run_wait_futs [simp]: "wait_futs (run ws s) = wait_futs s"
  by (induction ws s rule: run.induct) (simp_all add: run.simps)

lemma avoids_fields [simp]:
  "avoids x (s\<lparr>panicked := p\<rparr>) = avoids x s"
  "avoids x (s\<lparr>trace := tr\<rparr>) = avoids x s"
  "avoids x (s\<lparr>currentTasks := ct\<rparr>) = avoids x s"
  "avoids x (s\<lparr>ctxs := cs\<rparr>) = avoids x s"
  by (simp_all add: avoids_def wait_futs_def)

lemma works_avoid_cong:
  "wait_futs s' = wait_futs s \<Longrightarrow> works_avoid x s' ws = works_avoid x s ws"
  by (simp add: works_avoid_def)

lemma works_avoid_simps [simp]:
  "works_avoid x s [] = True"
  "works_avoid x s (w # ws) = (x \<notin> work_fids (wait_futs s) w \<and> works_avoid x s ws)"
  "works_avoid x s (ws1 @ ws2) = (works_avoid x s ws1 \<and> works_avoid x s ws2)"
  by (auto simp: works_avoid_def)

lemma work_fids_uaction [simp]: "work_fids wfs (uaction_work a) = {uaction_fid a}"
  by (cases a) (simp_all add: uaction_work_def)

lemma avoids_waits_update:
  "map w_waitFut ws' = map w_waitFut (waits s) \<Longrightarrow> avoids x (s\<lparr>waits := ws'\<rparr>) = avoids x s"
  by (simp add: avoids_def wait_futs_def)

lemma Wait_callback_work:
  "w' \<in> set (fst (Wait_callback w e s)) \<Longrightarrow>
   w < length (waits s) \<and> (\<exists>e'. w' = WSetResult (w_waitFut (waits s ! w)) 0 e')"
  by (auto simp: Wait_callback_def do_panic_def Let_def split: if_splits)

lemma avoids_Wait_callback:
  assumes "avoids x s" "x \<notin> cb_fids (wait_futs s) (CbWait w)"
  shows "works_avoid x s (fst (Wait_callback w e s))"
    and "avoids x (snd (Wait_callback w e s))"
proof -
  show "works_avoid x s (fst (Wait_callback w e s))"
    unfolding works_avoid_def
  proof
    fix w' assume "w' \<in> set (fst (Wait_callback w e s))"
    from Wait_callback_work[OF this] assms(2)
    show "x \<notin> work_fids (wait_futs s) w'"
      by (auto simp: wait_futs_def)
  qed
  show "avoids x (snd (Wait_callback w e s))"
    using assms(1)
    by (simp add: Wait_callback_def do_panic_def Let_def avoids_waits_update waits_update_same)
qed

lemma avoids_TaskDone_callback:
  assumes "avoids x s"
  shows "works_avoid x s (fst (TaskDone_callback t e s))"
    and "avoids x (snd (TaskDone_callback t e s))"
  using assms
  by (auto simp: TaskDone_callback_def do_panic_def avoids_def task_fids_def
        not_le split: option.splits)

lemma avoids_call:
  assumes "avoids x s" "x \<notin> cb_fids (wait_futs s) cb"
  shows "works_avoid x s (fst (call cb v e s))"
    and "avoids x (snd (call cb v e s))"
proof -
  show "works_avoid x s (fst (call cb v e s))"
  proof (cases cb)
    case (CbUser l acts)
    with assms(2) show ?thesis by (auto simp: works_avoid_def)
  next
    case (CbWait w)
    with assms show ?thesis by (simp add: avoids_Wait_callback(1))
  next
    case (CbTaskDone t)
    with assms show ?thesis by (simp add: avoids_TaskDone_callback(1))
  qed (use assms(2) in simp_all)
  show "avoids x (snd (call cb v e s))"
  proof (cases cb)
    case (CbWait w)
    with assms show ?thesis by (simp add: avoids_Wait_callback(2))
  next
    case (CbTaskDone t)
    with assms show ?thesis by (simp add: avoids_TaskDone_callback(2))
  qed (use assms(1) in simp_all)
qed

lemma avoids_SetResult:
  assumes "avoids x s" "x \<noteq> f"
  shows "works_avoid x s (fst (SetResult_step f v e s))"
    and "avoids x (snd (SetResult_step f v e s))"
    and "futs (snd (SetResult_step f v e s)) ! x = futs s ! x"
  using assms
  by (auto simp: SetResult_step_def do_panic_def upd_fut_def avoids_def works_avoid_def
        nth_list_update not_le)

lemma nth_update_cases:
  "P (xs ! j) \<Longrightarrow> (i < length xs \<Longrightarrow> i = j \<Longrightarrow> P y) \<Longrightarrow> P (xs[i := y] ! j)"
  by (cases "i < length xs"; cases "i = j") (simp_all add: list_update_beyond)

lemma avoids_upd_task:
  "avoids x s \<Longrightarrow> task_fids (g (tasks s ! t)) \<subseteq> task_fids (tasks s ! t) \<Longrightarrow>
   avoids x (upd_task t g s)"
proof -
  assume a: "avoids x s" and sub: "task_fids (g (tasks s ! t)) \<subseteq> task_fids (tasks s ! t)"
  have "x \<notin> task_fids ((tasks s)[t := g (tasks s ! t)] ! ta)" if "ta < length (tasks s)" for ta
    using a sub that
    by (rule_tac P = "\<lambda>tk. x \<notin> task_fids tk" in nth_update_cases) (auto simp: avoids_def)
  with a show ?thesis
    by (simp add: avoids_def upd_task_def wait_futs_def)
qed

lemma avoids_task:
  "avoids x s \<Longrightarrow> t < length (tasks s) \<Longrightarrow> x \<notin> task_fids (tasks s ! t)"
  by (simp add: avoids_def)

lemma avoids_yielder:
  assumes "avoids x s" "t < length (tasks s)"
    "set_option fut \<subseteq> coro_fids (body (tasks s ! t))"
  shows "works_avoid x s (fst (yielder t fut s))"
    and "avoids x (snd (yielder t fut s))"
    and "futs (snd (yielder t fut s)) = futs s"
proof -
  from assms have nt: "x \<notin> task_fids (tasks s ! t)" by (simp add: avoids_task)
  with assms(3) show "works_avoid x s (fst (yielder t fut s))"
    by (auto simp: yielder_def Let_def task_fids_def split: option.splits)
  show "avoids x (snd (yielder t fut s))"
    using assms
    by (auto simp: yielder_def Let_def task_fids_def intro!: avoids_upd_task split: option.splits)
  show "futs (snd (yielder t fut s)) = futs s"
    by (simp add: yielder_def Let_def upd_task_def split: option.splits)
qed

lemma avoids_Body:
  assumes "avoids x s"
  shows "works_avoid x s (fst (Body_step t s))"
    and "avoids x (snd (Body_step t s))"
    and "futs (snd (Body_step t s)) = futs s"
proof -
  show "works_avoid x s (fst (Body_step t s))"
    using assms avoids_task[OF assms, of t]
    by (auto simp: Body_step_def do_panic_def not_le avoids_yielder task_fids_def
        split: coro.splits)
  show "avoids x (snd (Body_step t s))"
    using assms
    by (auto simp: Body_step_def do_panic_def not_le avoids_yielder split: coro.splits)
  show "futs (snd (Body_step t s)) = futs s"
    using assms
    by (auto simp: Body_step_def do_panic_def not_le avoids_yielder split: coro.splits)
qed

lemma avoids_continue:
  assumes "avoids x s" "coro_fids k \<subseteq> coro_fids (body (tasks s ! t))"
  shows "avoids x (snd (continue_with t k s))"
  using assms
  by (auto simp: continue_with_def task_fids_def intro!: avoids_upd_task)

lemma avoids_YieldRet:
  assumes "avoids x s"
  shows "works_avoid x s (fst (YieldRet_step t b s))"
    and "avoids x (snd (YieldRet_step t b s))"
    and "futs (snd (YieldRet_step t b s)) = futs s"
proof -
  show "works_avoid x s (fst (YieldRet_step t b s))"
    by (auto simp: YieldRet_step_def do_panic_def continue_with_def Let_def
        split: coro.splits sum.splits)
  show "avoids x (snd (YieldRet_step t b s))"
    using assms
    by (auto simp: YieldRet_step_def do_panic_def Let_def
        intro!: avoids_continue split: coro.splits sum.splits)
  show "futs (snd (YieldRet_step t b s)) = futs s"
    by (auto simp: YieldRet_step_def do_panic_def continue_with_def Let_def upd_task_def
        split: coro.splits sum.splits)
qed

lemma avoids_Step:
  assumes "avoids x s"
  shows "works_avoid x s (fst (Step_step t s))"
    and "avoids x (snd (Step_step t s))"
    and "futs (snd (Step_step t s)) = futs s"
proof -
  show "works_avoid x s (fst (Step_step t s))"
    using assms avoids_task[OF assms, of t]
    by (auto simp: Step_step_def do_panic_def Let_def not_le task_fids_def
        split: phase.splits option.splits)
  show "avoids x (snd (Step_step t s))"
    using assms
    by (auto simp: Step_step_def do_panic_def Let_def task_fids_def
        intro!: avoids_upd_task split: phase.splits option.splits)
  show "futs (snd (Step_step t s)) = futs s"
    by (auto simp: Step_step_def do_panic_def Let_def upd_task_def
        split: phase.splits option.splits)
qed

lemma avoids_ScheduleCallback:
  "avoids x s \<Longrightarrow> x \<notin> loopfn_fids fn \<Longrightarrow> avoids x (ScheduleCallback d fn s)"
  by (auto simp: avoids_def ScheduleCallback_def wait_futs_def heap_Push_set)

lemma avoids_add_Step:
  "avoids x s \<Longrightarrow>
   avoids x (upd_fut pf (\<lambda>fu. fu\<lparr>f_callbacks := f_callbacks fu @ [CbStep t]\<rparr>) s)"
proof -
  assume a: "avoids x s"
  let ?P = "\<lambda>fu. \<not> f_done fu \<longrightarrow> (\<forall>cb \<in> set (f_callbacks fu). x \<notin> cb_fids (wait_futs s) cb)"
  have "?P ((futs s)[pf := (futs s ! pf)\<lparr>f_callbacks := f_callbacks (futs s ! pf) @ [CbStep t]\<rparr>] ! i)"
    if "i < length (futs s)" for i
    using a that by (rule_tac P = ?P in nth_update_cases) (auto simp: avoids_def)
  with a show ?thesis
    by (simp add: avoids_def upd_fut_def wait_futs_def)
qed

lemma avoids_NextRet:
  assumes "avoids x s"
  shows "works_avoid x s (fst (NextRet_step t old s))"
    and "avoids x (snd (NextRet_step t old s))"
    and "futs (snd (NextRet_step t old s)) ! x = futs s ! x"
proof -
  show "works_avoid x s (fst (NextRet_step t old s))"
    by (auto simp: NextRet_step_def do_panic_def Let_def split: option.splits)
  show "avoids x (snd (NextRet_step t old s))"
    using assms
    by (auto simp: NextRet_step_def do_panic_def Let_def RunCallback_def task_fids_def
        avoids_ScheduleCallback avoids_add_Step
        intro!: avoids_upd_task split: option.splits)
  show "futs (snd (NextRet_step t old s)) ! x = futs s ! x"
    using avoids_task[OF assms, of t]
    by (auto simp: NextRet_step_def do_panic_def Let_def RunCallback_def ScheduleCallback_def
        upd_fut_def upd_task_def task_fids_def nth_list_update not_le split: option.splits)
qed

lemma avoids_LoopCb:
  assumes "avoids x s" "x \<notin> loopfn_fids fn"
  shows "works_avoid x s (fst (LoopCb_step fn s))"
    and "avoids x (snd (LoopCb_step fn s))"
    and "futs (snd (LoopCb_step fn s)) = futs s"
proof -
  show "works_avoid x s (fst (LoopCb_step fn s))"
  proof (cases fn)
    case (LcSpawnStart t)
    with avoids_task[OF assms(1), of t] show ?thesis
      by (auto simp: LoopCb_step_def do_panic_def task_fids_def not_le split: option.splits)
  qed (use assms(2) in \<open>simp_all add: LoopCb_step_def\<close>)
  show "avoids x (snd (LoopCb_step fn s))"
    using assms(1)
    by (auto simp: LoopCb_step_def do_panic_def split: loopfn.splits option.splits)
  show "futs (snd (LoopCb_step fn s)) = futs s"
    by (auto simp: LoopCb_step_def do_panic_def split: loopfn.splits option.splits)
qed

lemma step_avoids:
  assumes "avoids x s" "x \<notin> work_fids (wait_futs s) w"
  shows "works_avoid x s (fst (step w s))"
    and "avoids x (snd (step w s))"
    and "futs (snd (step w s)) ! x = futs s ! x"
proof -
  show "works_avoid x s (fst (step w s))"
    using assms
    by (cases w)
       (simp_all add: avoids_SetResult avoids_call avoids_Body avoids_YieldRet avoids_Step
          avoids_NextRet avoids_LoopCb)
  show "avoids x (snd (step w s))"
    using assms
    by (cases w)
       (simp_all add: avoids_SetResult avoids_call avoids_Body avoids_YieldRet avoids_Step
          avoids_NextRet avoids_LoopCb ctx_cancel_def avoids_upd_task task_fids_def)
  show "futs (snd (step w s)) ! x = futs s ! x"
    using assms
    by (cases w)
       (simp_all add: avoids_SetResult call_futs avoids_Body avoids_YieldRet avoids_Step
          avoids_NextRet avoids_LoopCb ctx_cancel_def upd_task_def)
qed

lemma run_avoids:
  "avoids x s \<Longrightarrow> works_avoid x s ws \<Longrightarrow>
   avoids x (run ws s) \<and> futs (run ws s) ! x = futs s ! x"
proof (induction ws s rule: run.induct)
  case (1 s)
  then show ?case by simp
next
  case (2 w ws s)
  show ?case
  proof (cases "panicked s = None")
    case False
    with "2.prems" show ?thesis by (simp add: run_panicked)
  next
    case True
    from "2.prems" have w: "x \<notin> work_fids (wait_futs s) w" and ws: "works_avoid x s ws"
      by simp_all
    note st = step_avoids[OF "2.prems"(1) w]
    have "works_avoid x (snd (step w s)) (fst (step w s) @ ws)"
      using st(1) ws by (simp add: works_avoid_cong[of "snd (step w s)" s])
    from "2.IH"[OF _ st(2) this] True st(3) show ?thesis
      by (simp add: run.simps)
  qed
qed

subsection \<open>Completing a future\<close>

lemma SetResult_unfold:
  "f < length (futs s) \<Longrightarrow> panicked s = None \<Longrightarrow>
   SetResult f v e s =
     (if f_done (futs s ! f) then s
      else run (map (\<lambda>c. WCall c v e) (f_callbacks (futs s ! f))) (upd_fut f (completed v e) s))"
  by (simp add: SetResult_def run.simps SetResult_step_def completed_def[abs_def])

lemma upd_fut_nth:
  "f < length (futs s) \<Longrightarrow> futs (upd_fut f g s) ! f = g (futs s ! f)"
  by (simp add: upd_fut_def)

lemma SetResult_done:
  assumes "f < length (futs s)" "panicked s = None"
  shows "f_done (futs (SetResult f v e s) ! f)"
proof (cases "f_done (futs s ! f)")
  case True
  with assms show ?thesis by (simp add: SetResult_unfold)
next
  case False
  have "f_done (futs (upd_fut f (completed v e) s) ! f)"
    using assms by (simp add: upd_fut_nth completed_def)
  from run_done_stable[OF this] this False assms show ?thesis
    by (simp add: SetResult_unfold)
qed

lemma SetResult_value:
  assumes "f < length (futs s)" "panicked s = None" "\<not> f_done (futs s ! f)"
  shows "futs (SetResult f v e s) ! f = completed v e (futs s ! f)"
proof -
  have "f_done (futs (upd_fut f (completed v e) s) ! f)"
    using assms by (simp add: upd_fut_nth completed_def)
  from run_done_stable[OF this] assms show ?thesis
    by (simp add: SetResult_unfold upd_fut_nth)
qed

lemma SetResult_noop:
  "f < length (futs s) \<Longrightarrow> f_done (futs s ! f) \<Longrightarrow> SetResult f v e s = s"
  by (cases "panicked s = None")
     (simp_all add: SetResult_unfold, simp add: SetResult_def run_panicked)

lemma SetResult_length [simp]: "length (futs (SetResult f v e s)) = length (futs s)"
  by (simp add: SetResult_def run_length_futs)

lemma run_observers:
  "panicked s = None \<Longrightarrow>
   run (map (\<lambda>c. WCall c v e) (map observer ls)) s = s\<lparr>trace := trace s @ map (\<lambda>l. Called l v e) ls\<rparr>"
proof (induction ls arbitrary: s)
  case Nil
  then show ?case by simp
next
  case (Cons l ls)
  from Cons.prems Cons.IH[of "s\<lparr>trace := trace s @ [Called l v e]\<rparr>"] show ?case
    by (simp add: run.simps observer_def)
qed

lemma run_calls_foldl:
  "run (map (\<lambda>c. WCall c v e) cbs) s = foldl (\<lambda>s c. run [WCall c v e] s) s cbs"
proof (induction cbs arbitrary: s)
  case Nil
  show ?case by simp
next
  case (Cons c cbs)
  have "run (WCall c v e # map (\<lambda>c. WCall c v e) cbs) s
      = run (map (\<lambda>c. WCall c v e) cbs) (run [WCall c v e] s)"
    using run_append[of "[WCall c v e]" "map (\<lambda>c. WCall c v e) cbs" s] by simp
  with Cons.IH show ?case by simp
qed

subsection \<open>Shield\<close>

lemma Shield_pending:
  assumes "f < length (futs s)" "\<not> HasResult s f"
  shows "Shield f s = (length (futs s), shielded f s)"
  using assms
  by (simp add: Shield_def NewFuture_def AddResultCallback_def HasResult_def upd_fut_def
      shielded_def Let_def nth_append new_future_def list_update_append)

lemma shielded_facts:
  assumes "f < length (futs s)"
  shows "length (futs (shielded f s)) = Suc (length (futs s))"
    and "futs (shielded f s) ! length (futs s) = new_future\<lparr>f_callbacks := [CbShieldBack f]\<rparr>"
    and "futs (shielded f s) ! f
          = (futs s ! f)\<lparr>f_callbacks := f_callbacks (futs s ! f) @ [CbShieldFwd (length (futs s))]\<rparr>"
    and "panicked (shielded f s) = panicked s"
    and "wait_futs (shielded f s) = wait_futs s"
  using assms by (simp_all add: shielded_def nth_append wait_futs_def)

lemma avoids_after_source_done:
  assumes "f < length (futs s)" "avoids (length (futs s)) s"
  shows "avoids (length (futs s)) (upd_fut f (completed v e) (shielded f s))"
proof -
  let ?n = "length (futs s)"
  let ?s = "upd_fut f (completed v e) (shielded f s)"
  have wf: "wait_futs ?s = wait_futs s" by (simp add: shielded_facts[OF assms(1)])
  have "\<forall>cb \<in> set (f_callbacks (futs ?s ! i)). ?n \<notin> cb_fids (wait_futs s) cb"
    if "i < length (futs ?s)" "\<not> f_done (futs ?s ! i)" for i
  proof (cases "i = f")
    case True
    with that assms(1) show ?thesis
      by (simp add: upd_fut_def shielded_def completed_def nth_append)
  next
    case False
    show ?thesis
    proof (cases "i = ?n")
      case True
      with assms(1) show ?thesis
        by (simp add: upd_fut_def shielded_def nth_append new_future_def)
    next
      case False
      with \<open>i \<noteq> f\<close> that assms show ?thesis
        by (auto simp: upd_fut_def shielded_def nth_append avoids_def less_Suc_eq)
    qed
  qed
  with assms(2) show ?thesis
    unfolding avoids_def wf
    by (simp add: upd_fut_def shielded_def)
qed

lemma Shield_forwards:
  assumes "f < length (futs s)" "\<not> HasResult s f" "panicked s = None"
    "avoids (length (futs s)) s"
    "panicked (SetResult f v e (shielded f s)) = None"
  shows "futs (SetResult f v e (shielded f s)) ! length (futs s)
           = completed v e (new_future\<lparr>f_callbacks := [CbShieldBack f]\<rparr>)"
proof -
  let ?n = "length (futs s)"
  let ?old = "f_callbacks (futs s ! f)"
  let ?sA = "upd_fut f (completed v e) (shielded f s)"
  let ?sB = "run (map (\<lambda>c. WCall c v e) ?old) ?sA"
  note sf = shielded_facts[OF assms(1)]
  have nd: "\<not> f_done (futs (shielded f s) ! f)"
    using assms(2) by (simp add: sf HasResult_def)
  have unf: "SetResult f v e (shielded f s) = run [WCall (CbShieldFwd ?n) v e] ?sB"
    using assms(1,3) nd run_append[of "map (\<lambda>c. WCall c v e) ?old" "[WCall (CbShieldFwd ?n) v e]" ?sA]
    by (simp add: SetResult_unfold sf)
  have av: "avoids ?n ?sA" by (rule avoids_after_source_done[OF assms(1,4)])
  have wa: "works_avoid ?n ?sA (map (\<lambda>c. WCall c v e) ?old)"
    using assms(1,2,4) by (auto simp: works_avoid_def avoids_def HasResult_def sf)
  from run_avoids[OF av wa] have nB: "futs ?sB ! ?n = new_future\<lparr>f_callbacks := [CbShieldBack f]\<rparr>"
    using assms(1) by (simp add: upd_fut_def shielded_def nth_append)
  have pB: "panicked ?sB = None"
  proof (rule ccontr)
    assume "panicked ?sB \<noteq> None"
    with unf have "SetResult f v e (shielded f s) = ?sB" by (simp add: run_panicked)
    with assms(5) \<open>panicked ?sB \<noteq> None\<close> show False by simp
  qed
  have lB: "?n < length (futs ?sB)"
    by (simp add: run_length_futs upd_fut_def sf)
  have "run [WCall (CbShieldFwd ?n) v e] ?sB = SetResult ?n v e ?sB"
    using pB by (simp add: run.simps SetResult_def)
  moreover have "futs (SetResult ?n v e ?sB) ! ?n = completed v e (futs ?sB ! ?n)"
    using lB pB nB by (intro SetResult_value) (simp_all add: new_future_def)
  ultimately show ?thesis using unf nB by simp
qed

lemma Shield_cancel_kept:
  assumes "f < length (futs s)" "panicked s = None" "errors_Is (Some (canc c)) Canceled"
  shows "Cancel (length (futs s)) c (shielded f s)
           = upd_fut (length (futs s)) (completed 0 (Some (canc c))) (shielded f s)"
  using assms
  by (simp add: Cancel_def SetResult_unfold shielded_facts new_future_def run.simps upd_fut_def)

lemma Shield_cancel_propagated:
  assumes "f < length (futs s)" "panicked s = None" "\<not> errors_Is (Some (canc c)) Canceled"
  shows "Cancel (length (futs s)) c (shielded f s)
           = SetResult f 0 (Some (canc c))
               (upd_fut (length (futs s)) (completed 0 (Some (canc c))) (shielded f s))"
proof -
  let ?s1 = "upd_fut (length (futs s)) (completed 0 (Some (canc c))) (shielded f s)"
  have "Cancel (length (futs s)) c (shielded f s) = run [WCall (CbShieldBack f) 0 (Some (canc c))] ?s1"
    using assms(1,2)
    by (simp add: Cancel_def SetResult_unfold shielded_facts new_future_def)
  also have "\<dots> = run [WSetResult f 0 (Some (canc c))] ?s1"
    using assms by (simp add: run.simps(2)[of _ "[]"] upd_fut_def shielded_facts)
  finally show ?thesis by (simp add: SetResult_def)
qed

subsection \<open>Wait on no futures\<close>

lemma Wait_empty: "Wait mode [] s = (length (futs s), waiting mode s)"
  by (simp add: Wait_def NewFuture_def waiting_def Let_def)

lemma cb_fids_more_waits:
  "cb_wait_ok (length wfs) cb \<Longrightarrow> cb_fids (wfs @ wfs2) cb = cb_fids wfs cb"
  by (cases cb) (simp_all add: nth_append)

lemma avoids_waiting:
  assumes "avoids (length (futs s)) s" "wait_closed s"
  shows "avoids (length (futs s)) (waiting mode s)"
proof -
  let ?n = "length (futs s)"
  have "\<forall>cb \<in> set (f_callbacks (futs (waiting mode s) ! i)).
          ?n \<notin> cb_fids (wait_futs (waiting mode s)) cb"
    if "i < length (futs (waiting mode s))" "\<not> f_done (futs (waiting mode s) ! i)" for i
  proof (cases "i = ?n")
    case True
    then show ?thesis by (simp add: waiting_def new_future_def)
  next
    case False
    with that have i: "i < ?n" "\<not> f_done (futs s ! i)"
      by (simp_all add: waiting_def nth_append)
    show ?thesis
    proof
      fix cb assume "cb \<in> set (f_callbacks (futs (waiting mode s) ! i))"
      with i have cb: "cb \<in> set (f_callbacks (futs s ! i))" by (simp add: waiting_def nth_append)
      with assms(2) i have "cb_wait_ok (length (wait_futs s)) cb"
        by (simp add: wait_closed_def wait_futs_def)
      from cb_fids_more_waits[OF this] assms(1) i cb
      show "?n \<notin> cb_fids (wait_futs (waiting mode s)) cb"
        by (simp add: waiting_def wait_futs_def avoids_def)
    qed
  qed
  with assms(1) show ?thesis
    unfolding avoids_def by (simp add: waiting_def)
qed

subsection \<open>Tasks that are not advanced stay as they are\<close>

lemma works_tavoid_simps [simp]:
  "works_tavoid t [] = True"
  "works_tavoid t (w # ws) = (work_tid w \<noteq> Some t \<and> works_tavoid t ws)"
  "works_tavoid t (ws1 @ ws2) = (works_tavoid t ws1 \<and> works_tavoid t ws2)"
  by (auto simp: works_tavoid_def)

lemma tavoids_fields [simp]:
  "tavoids t (s\<lparr>panicked := p\<rparr>) = tavoids t s"
  "tavoids t (s\<lparr>trace := tr\<rparr>) = tavoids t s"
  "tavoids t (s\<lparr>currentTasks := ct\<rparr>) = tavoids t s"
  "tavoids t (s\<lparr>ctxs := cs\<rparr>) = tavoids t s"
  "tavoids t (s\<lparr>waits := ws\<rparr>) = tavoids t s"
  "tavoids t (s\<lparr>tasks := ts\<rparr>) = tavoids t s"
  "tavoids t (s\<lparr>pendingCallbacks := pc\<rparr>) = tavoids t s"
  "tavoids t (upd_task t' g s) = tavoids t s"
  by (simp_all add: tavoids_def upd_task_def)

lemma upd_task_other:
  "t' \<noteq> t \<Longrightarrow> tasks (upd_task t' g s) ! t = tasks s ! t"
  by (simp add: upd_task_def)

lemma tasks_fields [simp]:
  "tasks (upd_fut f g s) = tasks s"
  by (simp add: upd_fut_def)

lemma work_tid_WCall [simp]: "(work_tid (WCall cb v e) = Some t) = (cb = CbStep t)"
  by (cases cb) auto

lemma tavoids_SetResult:
  assumes "tavoids t s"
  shows "works_tavoid t (fst (SetResult_step f v e s))"
    and "tavoids t (snd (SetResult_step f v e s))"
    and "tasks (snd (SetResult_step f v e s)) = tasks s"
proof -
  show "works_tavoid t (fst (SetResult_step f v e s))"
    using assms
    by (auto simp: SetResult_step_def do_panic_def works_tavoid_def tavoids_def not_le)
  have "\<not> f_done ((futs s)[f := completed v e (futs s ! f)] ! i) \<longrightarrow>
          CbStep t \<notin> set (f_callbacks ((futs s)[f := completed v e (futs s ! f)] ! i))"
    if "i < length (futs s)" for i
    using assms that
    by (rule_tac P = "\<lambda>fu. \<not> f_done fu \<longrightarrow> CbStep t \<notin> set (f_callbacks fu)" in nth_update_cases)
       (auto simp: tavoids_def completed_def)
  with assms show "tavoids t (snd (SetResult_step f v e s))"
    by (simp add: SetResult_step_def do_panic_def upd_fut_def completed_def[abs_def])
       (simp add: tavoids_def)
  show "tasks (snd (SetResult_step f v e s)) = tasks s"
    by (simp add: SetResult_step_def do_panic_def)
qed

lemma tavoids_call:
  assumes "tavoids t s" "work_tid (WCall cb v e) \<noteq> Some t"
  shows "works_tavoid t (fst (call cb v e s))"
    and "tavoids t (snd (call cb v e s))"
    and "tasks (snd (call cb v e s)) = tasks s"
proof -
  show "works_tavoid t (fst (call cb v e s))"
    using assms(2)
    by (cases cb)
       (auto simp: works_tavoid_def uaction_work_def Wait_callback_def TaskDone_callback_def
          do_panic_def Let_def split: uaction.splits option.splits)
  show "tavoids t (snd (call cb v e s))"
    using assms(1)
    by (cases cb) (auto simp: Wait_callback_def TaskDone_callback_def do_panic_def Let_def)
  show "tasks (snd (call cb v e s)) = tasks s"
    by (cases cb) (auto simp: Wait_callback_def TaskDone_callback_def do_panic_def Let_def)
qed

lemma tavoids_add_Step:
  assumes "tavoids t s" "t' \<noteq> t"
  shows "tavoids t (upd_fut pf (\<lambda>fu. fu\<lparr>f_callbacks := f_callbacks fu @ [CbStep t']\<rparr>) s)"
proof -
  let ?P = "\<lambda>fu. \<not> f_done fu \<longrightarrow> CbStep t \<notin> set (f_callbacks fu)"
  have "?P ((futs s)[pf := (futs s ! pf)\<lparr>f_callbacks := f_callbacks (futs s ! pf) @ [CbStep t']\<rparr>] ! i)"
    if "i < length (futs s)" for i
    using assms that by (rule_tac P = ?P in nth_update_cases) (auto simp: tavoids_def)
  then show ?thesis by (simp add: tavoids_def upd_fut_def)
qed

lemma step_tavoids:
  assumes "tavoids t s" "work_tid w \<noteq> Some t"
  shows "works_tavoid t (fst (step w s))"
    and "tavoids t (snd (step w s))"
    and "tasks (snd (step w s)) ! t = tasks s ! t"
proof -
  show "works_tavoid t (fst (step w s))"
    using assms
    by (cases w)
       (auto simp: tavoids_SetResult tavoids_call Body_step_def yielder_def YieldRet_step_def
          continue_with_def Step_step_def NextRet_step_def LoopCb_step_def do_panic_def Let_def
          split: option.splits coro.splits phase.splits sum.splits loopfn.splits)
  show "tavoids t (snd (step w s))"
    using assms
    by (cases w)
       (auto simp: tavoids_SetResult tavoids_call Body_step_def yielder_def YieldRet_step_def
          continue_with_def Step_step_def NextRet_step_def LoopCb_step_def do_panic_def Let_def
          ctx_cancel_def RunCallback_def ScheduleCallback_def tavoids_add_Step
          split: option.splits coro.splits phase.splits sum.splits loopfn.splits)
  show "tasks (snd (step w s)) ! t = tasks s ! t"
    using assms
    by (cases w)
       (auto simp: tavoids_SetResult tavoids_call Body_step_def yielder_def YieldRet_step_def
          continue_with_def Step_step_def NextRet_step_def LoopCb_step_def do_panic_def Let_def
          ctx_cancel_def RunCallback_def ScheduleCallback_def upd_task_other
          split: option.splits coro.splits phase.splits sum.splits loopfn.splits)
qed

lemma step_length_tasks: "length (tasks (snd (step w s))) = length (tasks s)"
  by (cases w)
     (auto simp: call_futs step_defs Let_def tavoids_call(3)
        split: option.splits coro.splits phase.splits sum.splits loopfn.splits,
      (rename_tac cb v e, case_tac cb, auto simp: step_defs Let_def)+)

lemma run_tavoids:
  "tavoids t s \<Longrightarrow> works_tavoid t ws \<Longrightarrow>
   tavoids t (run ws s) \<and> tasks (run ws s) ! t = tasks s ! t"
proof (induction ws s rule: run.induct)
  case (1 s)
  then show ?case by simp
next
  case (2 w ws s)
  show ?case
  proof (cases "panicked s = None")
    case False
    with "2.prems" show ?thesis by (simp add: run_panicked)
  next
    case True
    from "2.prems" have w: "work_tid w \<noteq> Some t" and ws: "works_tavoid t ws" by simp_all
    note st = step_tavoids[OF "2.prems"(1) w]
    from "2.IH"[OF _ st(2)] st(1,3) ws True show ?thesis
      by (simp add: run.simps)
  qed
qed

lemma start_callback_settled:
  "settled_unstarted t s \<Longrightarrow> step (WLoopCb (LcSpawnStart t)) s = ([], s)"
  by (simp add: settled_unstarted_def LoopCb_step_def HasResult_def)

lemma run_settled_unstarted:
  "settled_unstarted t s \<Longrightarrow> works_start_only t ws \<Longrightarrow>
   settled_unstarted t (run ws s) \<and> tasks (run ws s) ! t = tasks s ! t
   \<and> futs (run ws s) ! resultFut (tasks s ! t) = futs s ! resultFut (tasks s ! t)"
proof (induction ws s rule: run.induct)
  case (1 s)
  then show ?case by simp
next
  case (2 w ws s)
  from "2.prems"(2) have ws: "works_start_only t ws"
    and w: "work_tid w \<noteq> Some t \<or> w = WLoopCb (LcSpawnStart t)"
    by (simp_all add: works_start_only_def)
  show ?case
  proof (cases "panicked s = None")
    case False
    with "2.prems" show ?thesis by (simp add: run_panicked)
  next
    case True
    show ?thesis
    proof (cases "w = WLoopCb (LcSpawnStart t)")
      case start: True
      with start_callback_settled[OF "2.prems"(1)] have e: "step w s = ([], s)" by simp
      have s1: "settled_unstarted t (snd (step w s))" using e "2.prems"(1) by simp
      have ws1: "works_start_only t (fst (step w s) @ ws)" using e ws by simp
      from "2.IH"[OF _ s1 ws1] True e show ?thesis
        by (simp add: run.simps)
    next
      case False
      with w have w': "work_tid w \<noteq> Some t" by simp
      from "2.prems"(1) have tv: "tavoids t s" and d: "f_done (futs s ! resultFut (tasks s ! t))"
        and l: "t < length (tasks s)" "resultFut (tasks s ! t) < length (futs s)"
        by (simp_all add: settled_unstarted_def)
      note st = step_tavoids[OF tv w']
      have s1: "settled_unstarted t (snd (step w s))"
        using st(2,3) d l
        by (simp add: settled_unstarted_def step_length_tasks step_length_futs step_done_stable)
      have ws1: "works_start_only t (fst (step w s) @ ws)"
        using st(1) ws by (auto simp: works_start_only_def works_tavoid_def)
      from "2.IH"[OF _ s1 ws1] True st(3) d show ?thesis
        by (simp add: run.simps step_done_stable)
    qed
  qed
qed

subsection \<open>SpawnTask and Cancel\<close>

lemma SpawnTask_eq: "SpawnTask ctx coro s = (length (tasks s), spawned ctx coro s)"
  by (simp add: SpawnTask_def WithCancelCause_def NewFuture_def AddResultCallback_def
      HasResult_def new_future_def upd_fut_def RunCallback_def ScheduleCallback_def
      spawned_def Let_def)

lemma spawned_facts:
  "tasks (spawned ctx coro s) ! length (tasks s) =
     \<lparr>t_ctx = length (ctxs s), resultFut = length (futs s), pendingFut = None,
      body = coro, phase = NotStarted, next_ok = False\<rparr>"
  "futs (spawned ctx coro s) ! length (futs s)
     = new_future\<lparr>f_callbacks := [CbTaskDone (length (tasks s))]\<rparr>"
  "length (futs (spawned ctx coro s)) = Suc (length (futs s))"
  "length (tasks (spawned ctx coro s)) = Suc (length (tasks s))"
  "panicked (spawned ctx coro s) = panicked s"
  "trace (spawned ctx coro s) = trace s"
  by (simp_all add: spawned_def)

lemma tavoids_spawned:
  assumes "tavoids (length (tasks s)) s"
  shows "tavoids (length (tasks s)) (spawned ctx coro s)"
proof -
  have "CbStep (length (tasks s)) \<notin> set (f_callbacks (futs (spawned ctx coro s) ! i))"
    if "i < Suc (length (futs s))" "\<not> f_done (futs (spawned ctx coro s) ! i)" for i
    using that assms
    by (cases "i = length (futs s)")
       (auto simp: spawned_def nth_append tavoids_def new_future_def less_Suc_eq)
  then show ?thesis
    by (simp add: tavoids_def spawned_facts)
qed

lemma Task_Cancel_spawned:
  assumes "panicked s = None"
  shows "Task_Cancel (length (tasks s)) None (spawned ctx coro s) = cancelled_spawn ctx coro s"
proof -
  let ?sp = "spawned ctx coro s"
  let ?s1 = "upd_fut (length (futs s)) (completed 0 (Some Canceled)) ?sp"
  have "Task_Cancel (length (tasks s)) None ?sp
      = run [WCall (CbTaskDone (length (tasks s))) 0 (Some Canceled)] ?s1"
    using assms
    by (simp add: Task_Cancel_def Cancel_def canc_def spawned_facts SetResult_unfold
        new_future_def)
  also have "\<dots> = run [WCtxCancel (length (ctxs s)) (Some Canceled)] ?s1"
    using assms
    by (simp add: run.simps(2)[of _ "[]"] TaskDone_callback_def upd_fut_def spawned_facts)
  also have "\<dots> = cancelled_spawn ctx coro s"
    using assms
    by (simp add: run.simps(2)[of _ "[]"] cancelled_spawn_def upd_fut_def spawned_facts)
  finally show ?thesis .
qed

lemma cancelled_spawn_facts:
  "tasks (cancelled_spawn ctx coro s) = tasks (spawned ctx coro s)"
  "futs (cancelled_spawn ctx coro s) ! length (futs s)
     = completed 0 (Some Canceled) (new_future\<lparr>f_callbacks := [CbTaskDone (length (tasks s))]\<rparr>)"
  "length (futs (cancelled_spawn ctx coro s)) = Suc (length (futs s))"
  "panicked (cancelled_spawn ctx coro s) = panicked s"
  by (simp_all add: cancelled_spawn_def ctx_cancel_def upd_fut_def spawned_def)

lemma settled_cancelled_spawn:
  assumes "tavoids (length (tasks s)) s"
  shows "settled_unstarted (length (tasks s)) (cancelled_spawn ctx coro s)"
proof -
  have "tavoids (length (tasks s)) (cancelled_spawn ctx coro s)"
  proof -
    have "CbStep (length (tasks s)) \<notin> set (f_callbacks (futs (cancelled_spawn ctx coro s) ! i))"
      if "i < Suc (length (futs s))" "\<not> f_done (futs (cancelled_spawn ctx coro s) ! i)" for i
      using that assms
      by (cases "i = length (futs s)")
         (auto simp: cancelled_spawn_def ctx_cancel_def upd_fut_def spawned_def nth_append
            tavoids_def completed_def less_Suc_eq)
    then show ?thesis by (simp add: tavoids_def cancelled_spawn_facts)
  qed
  then show ?thesis
    by (simp add: settled_unstarted_def cancelled_spawn_facts spawned_facts completed_def)
qed

text \<open>
  Without the cancellation the start callback does start the coroutine: on a fresh loop,
  dispatching the first callback after \<open>SpawnTask\<close> runs the body \<open>return 5, nil\<close> to its
  end and completes the result future with 5.
\<close>

lemma heap_Push_empty: "heap_Push [] c = [c]"
  by (simp add: heap_Push_def up.simps[of "[c]" 0])

lemma heap_Pop_single: "heap_Pop [c] = []"
  by (simp add: heap_Pop_def down.simps[of _ 0 0] Swap_def)

lemma ctx_Cause_child_of_root:
  "ctx_Cause [\<lparr>c_parent = None, c_cause = None\<rparr>, \<lparr>c_parent = Some 0, c_cause = None\<rparr>] (Suc 0) = None"
  by (simp add: ctx_Cause.simps[of _ "Suc 0"] ctx_Cause.simps[of _ 0])

lemma three_tasks_eq:
  "three_tasks = spawned 0 (Return 0 None) (spawned 0 (Return 0 None) (spawned 0 (Return 0 None) init_state))"
  by (simp add: three_tasks_def SpawnTask_eq)

lemma ctx_Cause_root_child:
  "c < length cs \<Longrightarrow> 0 < c \<Longrightarrow> c_parent (cs ! c) = Some 0 \<Longrightarrow> c_cause (cs ! 0) = None \<Longrightarrow>
   c_parent (cs ! 0) = None \<Longrightarrow> ctx_Cause cs c = c_cause (cs ! c)"
  by (simp add: ctx_Cause.simps[of cs c] ctx_Cause.simps[of cs 0] split: option.splits)

section \<open>Properties\<close>

subsection \<open>SetResult at most once\<close>

text \<open>
  C1. For every future \<open>f\<close> of a running program and every pair of calls
  \<open>SetResult v1 e1\<close>, \<open>SetResult v2 e2\<close>: after the first call the future is done; the
  second call changes nothing at all; whatever runs later, the record of \<open>f\<close> (done,
  result, error) stays what the first call left; when \<open>f\<close> was pending the stored pair is
  \<open>(v1, e1)\<close>, also after the callbacks have run; and after \<open>Cancel c1\<close>, \<open>Cancel c2\<close>
  the error is the first cause (\<open>context.Canceled\<close> for nil).
\<close>

theorem SetResult_only_first:
  assumes "f < length (futs s)" and "panicked s = None"
  shows "HasResult (SetResult f v1 e1 s) f
    \<and> SetResult f v2 e2 (SetResult f v1 e1 s) = SetResult f v1 e1 s
    \<and> (\<forall>ws. futs (run ws (SetResult f v1 e1 s)) ! f = futs (SetResult f v1 e1 s) ! f)
    \<and> (if HasResult s f then SetResult f v1 e1 s = s
        else f_result (futs (SetResult f v1 e1 s) ! f) = v1 \<and> Err (SetResult f v1 e1 s) f = e1)
    \<and> Cancel f c2 (Cancel f c1 s) = Cancel f c1 s
    \<and> (if HasResult s f then Err (Cancel f c2 (Cancel f c1 s)) f = Err s f
        else Err (Cancel f c2 (Cancel f c1 s)) f = Some (canc c1))"
proof -
  note d = SetResult_done[OF assms]
  have noop: "SetResult f v' e' (SetResult f v e s) = SetResult f v e s" for v e v' e'
    using d[of v e] assms(1) by (simp add: SetResult_noop)
  have val: "\<not> HasResult s f \<Longrightarrow> futs (SetResult f v e s) ! f = completed v e (futs s ! f)" for v e
    using SetResult_value[OF assms] by (simp add: HasResult_def)
  show ?thesis
    using d[of v1 e1] noop val[of v1 e1] val[of 0 "Some (canc c1)"] assms(1)
    by (auto simp: HasResult_def Err_def Cancel_def run_done_stable completed_def SetResult_noop)
qed

theorem SetResult_only_first_witness:
  "HasResult (SetResult 0 5 None wstate) 0
   \<and> SetResult 0 6 (Some EOF) (SetResult 0 5 None wstate) = SetResult 0 5 None wstate
   \<and> f_result (futs (SetResult 0 5 None wstate) ! 0) = 5
   \<and> Err (SetResult 0 5 None wstate) 0 = None
   \<and> Err (Cancel 0 (Some EOF) (Cancel 0 None wstate)) 0 = Some Canceled"
proof -
  have h: "0 < length (futs wstate)" "panicked wstate = None" "\<not> HasResult wstate 0"
    by (simp_all add: wstate_def init_state_def new_future_def HasResult_def)
  from SetResult_only_first[OF h(1,2), of 5 None 6 "Some EOF" "Some EOF" None] h(3)
  show ?thesis by (auto simp: canc_def)
qed

subsection \<open>Result on a pending future\<close>

text \<open>
  C2. For a future made by \<open>NewFuture\<close> and not yet completed, the specification has
  \<open>Result\<close> return the zero value with a "still pending" error. \<open>NewFuture\<close> leaves the
  field \<open>ctx\<close> nil and nothing in the package assigns it, so \<open>Result\<close> reaches
  \<open>f.ctx.Err()\<close> on a nil interface: for every state, \<open>Result\<close> on the future just made
  is a nil dereference panic, not a returned error.
\<close>

theorem Result_of_new_future_panics:
  "Result (snd (NewFuture s)) (fst (NewFuture s)) = Inl NilDereference"
  by (simp add: Result_def NewFuture_def new_future_def)

subsection \<open>Shield\<close>

text \<open>
  C3, as stated: cancelling the shield with any cause leaves the source alone. The
  guard of the shield's callback only holds back errors that are \<open>context.Canceled\<close>:
  cancelling the shield of a pending future with the cause \<open>DeadlineExceeded\<close> completes
  the source with that error.
\<close>

theorem Shield_cancel_with_cause_reaches_source:
  "fst (Shield 0 (snd (NewFuture (init_state :: int state)))) = 1
   \<and> \<not> HasResult (snd (Shield 0 (snd (NewFuture (init_state :: int state))))) 0
   \<and> HasResult (Cancel 1 (Some DeadlineExceeded)
                  (snd (Shield 0 (snd (NewFuture (init_state :: int state)))))) 0
   \<and> Err (Cancel 1 (Some DeadlineExceeded)
            (snd (Shield 0 (snd (NewFuture (init_state :: int state)))))) 0 = Some DeadlineExceeded"
  by (simp add: Shield_def NewFuture_def AddResultCallback_def HasResult_def Err_def
      upd_fut_def init_state_def new_future_def Cancel_def SetResult_def run.simps
      SetResult_step_def canc_def Let_def)

text \<open>
  C3, amended. For a pending future \<open>f\<close> of a running program in which no closure holds
  a future that does not exist yet, \<open>Shield f\<close> makes a new pending future \<open>f'\<close> and leaves
  \<open>f\<close> pending. When \<open>f\<close> completes with \<open>(v, e)\<close> and the call does not panic, \<open>f'\<close> is
  completed with \<open>(v, e)\<close>. Cancelling \<open>f'\<close> with no cause or with a cause that is
  \<open>context.Canceled\<close> (or wraps it) completes \<open>f'\<close> with that cause and leaves \<open>f\<close> as
  it was, pending; cancelling \<open>f'\<close> with any other cause completes \<open>f\<close> with that cause
  too.
\<close>

theorem Shield_mirrors:
  assumes "f < length (futs s)" and "\<not> HasResult s f" and "panicked s = None"
    and "avoids (length (futs s)) s"
  shows "fst (Shield f s) = length (futs s)
    \<and> \<not> HasResult (snd (Shield f s)) (fst (Shield f s))
    \<and> \<not> HasResult (snd (Shield f s)) f
    \<and> (panicked (SetResult f v e (snd (Shield f s))) = None \<longrightarrow>
          HasResult (SetResult f v e (snd (Shield f s))) (fst (Shield f s))
          \<and> f_result (futs (SetResult f v e (snd (Shield f s))) ! fst (Shield f s)) = v
          \<and> Err (SetResult f v e (snd (Shield f s))) (fst (Shield f s)) = e)
    \<and> (if errors_Is (Some (canc c)) Canceled
        then HasResult (Cancel (fst (Shield f s)) c (snd (Shield f s))) (fst (Shield f s))
          \<and> Err (Cancel (fst (Shield f s)) c (snd (Shield f s))) (fst (Shield f s)) = Some (canc c)
          \<and> futs (Cancel (fst (Shield f s)) c (snd (Shield f s))) ! f = futs (snd (Shield f s)) ! f
          \<and> \<not> HasResult (Cancel (fst (Shield f s)) c (snd (Shield f s))) f
        else HasResult (Cancel (fst (Shield f s)) c (snd (Shield f s))) f
          \<and> Err (Cancel (fst (Shield f s)) c (snd (Shield f s))) f = Some (canc c))"
proof -
  let ?n = "length (futs s)"
  let ?sh = "shielded f s"
  note sf = shielded_facts[OF assms(1)]
  have sh: "Shield f s = (?n, ?sh)" by (rule Shield_pending[OF assms(1,2)])
  have pend: "\<not> HasResult ?sh ?n" "\<not> HasResult ?sh f"
    using assms(2) by (simp_all add: HasResult_def sf new_future_def)
  have fwd: "HasResult (SetResult f v e ?sh) ?n
      \<and> f_result (futs (SetResult f v e ?sh) ! ?n) = v \<and> Err (SetResult f v e ?sh) ?n = e"
    if "panicked (SetResult f v e ?sh) = None"
    using Shield_forwards[OF assms that]
    by (simp add: HasResult_def Err_def completed_def)
  have kept: "HasResult (Cancel ?n c ?sh) ?n \<and> Err (Cancel ?n c ?sh) ?n = Some (canc c)
      \<and> futs (Cancel ?n c ?sh) ! f = futs ?sh ! f \<and> \<not> HasResult (Cancel ?n c ?sh) f"
    if "errors_Is (Some (canc c)) Canceled"
    using Shield_cancel_kept[OF assms(1,3) that] assms(1,2)
    by (simp add: HasResult_def Err_def upd_fut_def sf completed_def)
  have propag: "HasResult (Cancel ?n c ?sh) f \<and> Err (Cancel ?n c ?sh) f = Some (canc c)"
    if "\<not> errors_Is (Some (canc c)) Canceled"
  proof -
    let ?s1 = "upd_fut ?n (completed 0 (Some (canc c))) ?sh"
    have l: "f < length (futs ?s1)" "panicked ?s1 = None" "\<not> f_done (futs ?s1 ! f)"
      using assms(1,2,3) by (simp_all add: upd_fut_def sf HasResult_def)
    from SetResult_value[OF l] Shield_cancel_propagated[OF assms(1,3) that]
    show ?thesis by (simp add: HasResult_def Err_def completed_def)
  qed
  show ?thesis
    unfolding sh fst_conv snd_conv
    using pend fwd kept propag by simp
qed

theorem Shield_mirrors_witness:
  "fst (Shield 0 shstate) = 1
   \<and> HasResult (SetResult 0 5 (Some EOF) (snd (Shield 0 shstate))) 1
   \<and> f_result (futs (SetResult 0 5 (Some EOF) (snd (Shield 0 shstate))) ! 1) = 5
   \<and> Err (SetResult 0 5 (Some EOF) (snd (Shield 0 shstate))) 1 = Some EOF
   \<and> HasResult (Cancel 1 None (snd (Shield 0 shstate))) 1
   \<and> Err (Cancel 1 None (snd (Shield 0 shstate))) 1 = Some Canceled
   \<and> \<not> HasResult (Cancel 1 None (snd (Shield 0 shstate))) 0"
proof -
  have h: "0 < length (futs shstate)" "\<not> HasResult shstate 0" "panicked shstate = None"
    "avoids (length (futs shstate)) shstate"
    by (simp_all add: shstate_def init_state_def new_future_def HasResult_def avoids_def
        observer_def)
  have sh: "Shield 0 shstate = (1, shielded 0 shstate)"
    using Shield_pending[OF h(1,2)] by (simp add: shstate_def)
  have np: "panicked (SetResult 0 5 (Some EOF) (snd (Shield 0 shstate))) = None"
    unfolding sh snd_conv
    by (simp add: shielded_def shstate_def init_state_def new_future_def observer_def
        SetResult_def run.simps SetResult_step_def upd_fut_def)
  from Shield_mirrors[OF h, of 5 "Some EOF" None] np sh
  show ?thesis by (auto simp: canc_def shstate_def)
qed

subsection \<open>The poller timeout\<close>

text \<open>
  C4, as stated: the timeout is the minimum of the time until the first callback, the
  time until the deadline and the cap of 30 seconds, so it never exceeds the cap. With
  one callback due in 60 seconds and no deadline the loop waits 60 seconds.
\<close>

theorem Run_timeout_exceeds_cap:
  "Run_timeout [\<lparr>cb_fn = LcUser 0, cb_when = 60000000000\<rparr>] None 0 0 = Inr 60000000000
   \<and> spec_timeout [\<lparr>cb_fn = LcUser 0, cb_when = 60000000000\<rparr>] None 0 0 = 30000000000
   \<and> HARD_CAP < 60000000000"
  by (simp add: Run_timeout_def spec_timeout_def TimeUntilFirst_def Peek_def Empty_def
      time_Until_def time_Sub_def maxDuration_def minDuration_def Second_def HARD_CAP_def)

text \<open>
  C4, amended: the blocking step never panics; with an empty queue the timeout is the
  specified minimum (30 seconds, lowered to the time until the deadline), and with a
  pending callback it is the time until the first callback, lowered to the time until
  the deadline, with no cap of 30 seconds.
\<close>

theorem Run_timeout_value:
  "Run_timeout q deadline now1 now2 =
     Inr (if q = [] then spec_timeout q deadline now1 now2
          else (case deadline of
                  None \<Rightarrow> time_Until (cb_when (hd q)) now1
                | Some d \<Rightarrow> min (time_Until (cb_when (hd q)) now1) (time_Until d now2)))"
  by (cases q; cases deadline)
     (auto simp: Run_timeout_def spec_timeout_def TimeUntilFirst_def Peek_def Empty_def
        HARD_CAP_def Let_def min_def)

subsection \<open>Done-callbacks\<close>

text \<open>
  C5. Registering a callback on a future that is done calls it at once, once, with the
  stored result, and stores nothing. Registering on a pending future appends it and calls
  nothing. When the future completes, \<open>SetResult\<close> calls the registered callbacks one after
  the other in the order of registration, each running to completion, before it returns:
  with observers \<open>ls\<close> registered the trace grows by exactly one call per observer, in
  that order, with the arguments of \<open>SetResult\<close>, and a second \<open>SetResult\<close> calls none.
\<close>

theorem callbacks_fire_once_in_order:
  assumes "f < length (futs s)" and "panicked s = None"
  shows "if HasResult s f
         then AddResultCallback f (observer l) s
                = s\<lparr>trace := trace s @ [Called l (f_result (futs s ! f)) (f_err (futs s ! f))]\<rparr>
         else f_callbacks (futs (AddResultCallback f cb s) ! f) = f_callbacks (futs s ! f) @ [cb]
            \<and> trace (AddResultCallback f cb s) = trace s
            \<and> SetResult f v e s
                = foldl (\<lambda>s c. run [WCall c v e] s) (upd_fut f (completed v e) s)
                    (f_callbacks (futs s ! f))
            \<and> (f_callbacks (futs s ! f) = map observer ls \<longrightarrow>
                  trace (SetResult f v e s) = trace s @ map (\<lambda>l. Called l v e) ls
                  \<and> trace (SetResult f v' e' (SetResult f v e s)) = trace (SetResult f v e s))"
proof (cases "HasResult s f")
  case True
  with assms(2) show ?thesis
    by (simp add: AddResultCallback_def observer_def run.simps)
next
  case False
  then have nd: "\<not> f_done (futs s ! f)" by (simp add: HasResult_def)
  have p: "panicked (upd_fut f (completed v e) s) = None"
    using assms(2) by (simp add: upd_fut_def)
  have "trace (SetResult f v e s) = trace s @ map (\<lambda>l. Called l v e) ls
      \<and> trace (SetResult f v' e' (SetResult f v e s)) = trace (SetResult f v e s)"
    if "f_callbacks (futs s ! f) = map observer ls"
    using that nd assms run_observers[OF p, of v e ls] SetResult_done[OF assms, of v e]
    by (simp add: SetResult_unfold SetResult_noop upd_fut_def)
  with False nd assms show ?thesis
    by (simp add: AddResultCallback_def upd_fut_nth SetResult_unfold run_calls_foldl)
       (simp add: upd_fut_def)
qed

theorem callbacks_fire_once_in_order_witness:
  "trace (SetResult 0 5 None cstate) = [Called 1 5 None, Called 2 5 None]
   \<and> trace (SetResult 0 6 (Some EOF) (SetResult 0 5 None cstate)) = [Called 1 5 None, Called 2 5 None]
   \<and> f_callbacks (futs (AddResultCallback 0 (observer 3) cstate) ! 0) = [observer 1, observer 2, observer 3]
   \<and> trace (AddResultCallback 0 (observer 3) cstate) = []"
proof -
  have h: "0 < length (futs cstate)" "panicked cstate = None" "\<not> HasResult cstate 0"
    "f_callbacks (futs cstate ! 0) = map observer [1, 2]" "trace cstate = []"
    by (simp_all add: cstate_def init_state_def new_future_def HasResult_def)
  from callbacks_fire_once_in_order[OF h(1,2), where l = 3 and cb = "observer 3" and v = 5
      and e = None and v' = 6 and e' = "Some EOF" and ls = "[1, 2]"] h(3,4,5)
  show ?thesis by auto
qed

subsection \<open>Deferred spawn\<close>

text \<open>
  C6. \<open>SpawnTask\<close> runs nothing: it returns with the task not started, its body
  untouched and its result future pending, having only put the start callback in the
  loop's queue; and whatever runs without dispatching that callback (or stepping the task)
  leaves the task as it is. When the task is then cancelled with \<open>Cancel(nil)\<close>, its
  result future completes with \<open>context.Canceled\<close>; the start callback, when the loop
  dispatches it, returns at once; and whatever the loop dispatches afterwards, the start
  callback included, the body never starts and the result stays \<open>Canceled\<close>.
\<close>

theorem SpawnTask_defers_and_cancel_prevents:
  assumes "panicked s = None" and "tavoids (length (tasks s)) s"
  shows "fst (SpawnTask ctx coro s) = length (tasks s)
    \<and> tasks (snd (SpawnTask ctx coro s)) ! length (tasks s)
        = \<lparr>t_ctx = length (ctxs s), resultFut = length (futs s), pendingFut = None,
           body = coro, phase = NotStarted, next_ok = False\<rparr>
    \<and> \<not> HasResult (snd (SpawnTask ctx coro s)) (length (futs s))
    \<and> trace (snd (SpawnTask ctx coro s)) = trace s
    \<and> set (pendingCallbacks (snd (SpawnTask ctx coro s)))
        = insert \<lparr>cb_fn = LcSpawnStart (length (tasks s)), cb_when = clock s\<rparr>
            (set (pendingCallbacks s))
    \<and> (works_tavoid (length (tasks s)) ws \<longrightarrow>
          tasks (run ws (snd (SpawnTask ctx coro s))) ! length (tasks s)
            = tasks (snd (SpawnTask ctx coro s)) ! length (tasks s))
    \<and> HasResult (Task_Cancel (length (tasks s)) None (snd (SpawnTask ctx coro s))) (length (futs s))
    \<and> Err (Task_Cancel (length (tasks s)) None (snd (SpawnTask ctx coro s))) (length (futs s))
        = Some Canceled
    \<and> run [WLoopCb (LcSpawnStart (length (tasks s)))]
          (Task_Cancel (length (tasks s)) None (snd (SpawnTask ctx coro s)))
        = Task_Cancel (length (tasks s)) None (snd (SpawnTask ctx coro s))
    \<and> (works_start_only (length (tasks s)) ws' \<longrightarrow>
          phase (tasks (run ws' (Task_Cancel (length (tasks s)) None (snd (SpawnTask ctx coro s))))
                  ! length (tasks s)) = NotStarted
          \<and> body (tasks (run ws' (Task_Cancel (length (tasks s)) None (snd (SpawnTask ctx coro s))))
                  ! length (tasks s)) = coro
          \<and> Err (run ws' (Task_Cancel (length (tasks s)) None (snd (SpawnTask ctx coro s))))
                (length (futs s)) = Some Canceled)"
proof -
  let ?t = "length (tasks s)"
  let ?sp = "spawned ctx coro s"
  let ?sc = "cancelled_spawn ctx coro s"
  note sp = SpawnTask_eq[of ctx coro s]
  note tc = Task_Cancel_spawned[OF assms(1), of ctx coro]
  note su = settled_cancelled_spawn[OF assms(2), of ctx coro]
  have a: "tasks (run ws ?sp) ! ?t = tasks ?sp ! ?t" if "works_tavoid ?t ws"
    using run_tavoids[OF tavoids_spawned[OF assms(2)] that] by simp
  have b: "run [WLoopCb (LcSpawnStart ?t)] ?sc = ?sc"
    using start_callback_settled[OF su] assms(1)
    by (simp add: run.simps cancelled_spawn_facts)
  have c: "phase (tasks (run ws' ?sc) ! ?t) = NotStarted \<and> body (tasks (run ws' ?sc) ! ?t) = coro
      \<and> Err (run ws' ?sc) (length (futs s)) = Some Canceled"
    if "works_start_only ?t ws'"
    using run_settled_unstarted[OF su that]
    by (simp add: cancelled_spawn_facts spawned_facts Err_def completed_def)
  show ?thesis
    unfolding sp fst_conv snd_conv tc
    using a b c
    by (simp add: spawned_facts cancelled_spawn_facts HasResult_def Err_def new_future_def
        completed_def)
       (simp add: spawned_def heap_Push_set)
qed

theorem SpawnTask_defers_and_cancel_prevents_witness:
  "fst (SpawnTask 0 (Return 5 None) (init_state :: int state)) = 0
   \<and> phase (tasks (snd (SpawnTask 0 (Return 5 None) (init_state :: int state))) ! 0) = NotStarted
   \<and> Err (Task_Cancel 0 None (snd (SpawnTask 0 (Return 5 None) (init_state :: int state)))) 0
       = Some Canceled
   \<and> phase (tasks (run [WLoopCb (LcSpawnStart 0), WLoopCb (LcUser 1)]
        (Task_Cancel 0 None (snd (SpawnTask 0 (Return 5 None) (init_state :: int state))))) ! 0)
       = NotStarted"
proof -
  have h: "panicked (init_state :: int state) = None"
    "tavoids (length (tasks (init_state :: int state))) (init_state :: int state)"
    "length (tasks (init_state :: int state)) = 0" "length (futs (init_state :: int state)) = 0"
    by (simp_all add: init_state_def tavoids_def)
  have w: "works_start_only 0 [WLoopCb (LcSpawnStart 0), WLoopCb (LcUser 1) :: int work]"
    by (simp add: works_start_only_def)
  from SpawnTask_defers_and_cancel_prevents[OF h(1,2), of 0 "Return 5 None" "[]"
      "[WLoopCb (LcSpawnStart 0), WLoopCb (LcUser 1)]"] w
  show ?thesis unfolding h(3,4) by simp
qed

lemma dispatch_after_spawn_runs_body:
  "phase (tasks (RunFirst (snd (SpawnTask 0 (Return 5 None) (init_state :: int state)))) ! 0) = Finished
   \<and> futs (RunFirst (snd (SpawnTask 0 (Return 5 None) (init_state :: int state)))) ! 0
       = completed 5 None (new_future\<lparr>f_callbacks := [CbTaskDone 0]\<rparr>)
   \<and> pendingCallbacks (RunFirst (snd (SpawnTask 0 (Return 5 None) (init_state :: int state)))) = []
   \<and> panicked (RunFirst (snd (SpawnTask 0 (Return 5 None) (init_state :: int state)))) = None"
  by (simp add: SpawnTask_eq spawned_def init_state_def RunFirst_def Peek_def heap_Push_empty
      heap_Pop_single Let_def run.simps LoopCb_step_def HasResult_def
      new_future_def ctx_Cause_child_of_root Step_step_def upd_task_def Body_step_def
      SetResult_step_def upd_fut_def TaskDone_callback_def ctx_cancel_def canc_def
      NextRet_step_def completed_def)

subsection \<open>Mutex\<close>

text \<open>
  C7. The specification has a mutex admit one holder at a time. A waiter whose task has
  been cancelled breaks it: task 0 locks the mutex; task 1, cancelled, calls \<open>Lock\<close>,
  whose \<open>Await\<close> cancels the future all the waiters share (the yielder's
  \<open>fut.Cancel(err)\<close>) and returns the error; task 2 then finds that future done and
  locks the mutex as well, while task 0 has not unlocked.
\<close>

theorem Mutex_cancelled_waiter_admits_second_holder:
  "fst after_lock1 = Locked
   \<and> unlockFut (fst (snd after_lock1)) = Some 3
   \<and> \<not> HasResult (snd (snd after_lock1)) 3
   \<and> fst after_lock2 = LockFailed Canceled
   \<and> fst (snd after_lock2) = fst (snd after_lock1)
   \<and> HasResult (snd (snd after_lock2)) 3
   \<and> fst after_lock3 = Locked
   \<and> panicked (snd (snd after_lock3)) = None"
  by code_simp

text \<open>\<open>Unlock\<close> on a mutex that was never locked does nothing.\<close>

lemma Mutex_Unlock_never_locked: "Mutex_Unlock \<lparr>unlockFut = None\<rparr> s = s"
  by (simp add: Mutex_Unlock_def)

subsection \<open>Queue\<close>

text \<open>
  C8. The specification has at most one of the two lists of a queue non-empty between
  operations. \<open>Get\<close> appends the future it returns to the waiters also when it has just
  completed it with an item: after \<open>Push 1\<close>, \<open>Push 2\<close>, \<open>Get\<close> the future is done with
  the item 1, and the queue holds the item 2 and that completed future as a waiter.
\<close>

theorem Queue_Get_leaves_both_lists_nonempty:
  "fst pushed2 = \<lparr>q_data = [1, 2], q_futs = []\<rparr>
   \<and> fst (snd (Queue_Get (fst pushed2) (snd pushed2))) = \<lparr>q_data = [2], q_futs = [0]\<rparr>
   \<and> HasResult (snd (snd (Queue_Get (fst pushed2) (snd pushed2)))) 0
   \<and> f_result (futs (snd (snd (Queue_Get (fst pushed2) (snd pushed2)))) ! 0) = 1"
proof -
  have p: "pushed2 = (\<lparr>q_data = [1, 2], q_futs = []\<rparr>, init_state)"
    by (simp add: pushed2_def Queue_Push_def empty_queue_def Push_loop.simps)
  show ?thesis
    unfolding p
    by (simp add: Queue_Get_def NewFuture_def init_state_def new_future_def Let_def
        SetResult_def run.simps SetResult_step_def upd_fut_def HasResult_def)
qed

subsection \<open>ReadUntil\<close>

text \<open>
  C9. On a stream whose descriptor delivers its bytes without failing, in any chunks and
  with any number of would-block moments, \<open>ReadUntil ch\<close> returns the bytes of the input
  (what is buffered, then what the descriptor delivers) up to and including the first
  \<open>ch\<close>, with no error; when the input has no \<open>ch\<close> and is not empty it returns all of
  it with no error; when the input is empty it returns no bytes and the error \<open>EOF\<close>.
\<close>

theorem ReadUntil_result:
  assumes "list_all ok_event (a_file a)"
  shows "fst (ReadUntil a ch) = ReadUntil_spec (a_buffer a @ input_bytes (a_file a)) ch"
proof (cases "ch \<in> set (a_buffer a)")
  case True
  then show ?thesis
    by (simp add: ReadUntil_def scan_eq consume_at_first ReadUntil_spec_def)
next
  case False
  with assms show ?thesis
    by (simp add: ReadUntil_def scan_eq ReadUntil_loop_ok)
qed

theorem ReadUntil_result_witness:
  "fst (ReadUntil \<lparr>a_file = [Bytes [1, 2], WouldBlock None, Bytes [3, 10, 5]], a_buffer = [7]\<rparr> 10)
     = ([7, 1, 2, 3, 10], None)
   \<and> fst (ReadUntil \<lparr>a_file = [Bytes [1, 2], WouldBlock None], a_buffer = [7]\<rparr> 10)
     = ([7, 1, 2], None)
   \<and> fst (ReadUntil \<lparr>a_file = [WouldBlock None], a_buffer = []\<rparr> 10) = ([], Some EOF)"
  using ReadUntil_result[of "\<lparr>a_file = [Bytes [1, 2], WouldBlock None, Bytes [3, 10, 5]], a_buffer = [7]\<rparr>" 10]
    ReadUntil_result[of "\<lparr>a_file = [Bytes [1, 2], WouldBlock None], a_buffer = [7]\<rparr>" 10]
    ReadUntil_result[of "\<lparr>a_file = [WouldBlock None], a_buffer = []\<rparr>" 10]
  by (simp add: ReadUntil_spec_def input_bytes_def)

subsection \<open>Wait on no futures\<close>

text \<open>
  C10, as stated: the future \<open>Wait\<close> returns for no futures stays pending under every
  later run of the loop. It does not: \<open>Wait\<close> registers no callback on it, but a task that
  awaits it holds it as its pending future, and cancelling that task cancels the pending
  future (the done-callback of \<open>SpawnTask\<close>, lines 205 to 208). Here \<open>Wait\<close> in mode
  \<open>WaitAll\<close> returns future 0 with no callback, task 0 suspends on it with the future
  still pending, and after \<open>Cancel(nil)\<close> on the task the future is done with
  \<open>context.Canceled\<close>; nothing panics.
\<close>

theorem Wait_empty_cancelled_with_awaiting_task:
  "fst (Wait WaitAll [] (init_state :: int state)) = 0
   \<and> f_callbacks (futs (snd (Wait WaitAll [] (init_state :: int state))) ! 0) = []
   \<and> phase (tasks wait_awaited ! 0) = Suspended
   \<and> pendingFut (tasks wait_awaited ! 0) = Some 0
   \<and> \<not> HasResult wait_awaited 0
   \<and> HasResult (Task_Cancel 0 None wait_awaited) 0
   \<and> Err (Task_Cancel 0 None wait_awaited) 0 = Some Canceled
   \<and> panicked (Task_Cancel 0 None wait_awaited) = None"
  by code_simp

text \<open>
  C10, amended. For every mode, also \<open>WaitAll\<close>, \<open>Wait\<close> on no futures makes a new pending
  future and registers no callback: the futures that were there are as they were, the new
  one has no callback, and no task and no callback of the loop is added. So \<open>Wait\<close> itself
  never completes it, and it stays pending as long as only code that does not hold it
  runs: after any sequence of calls, callbacks, task steps and loop callbacks that do not
  hold the future, \<open>HasResult\<close> is still false and still no closure that can run holds it.
  Only code that was handed the future can complete it: a call of \<open>SetResult\<close> or
  \<open>Cancel\<close> on it, or the cancellation of a task that awaits it.
\<close>

theorem Wait_empty_never_completes:
  assumes "avoids (length (futs s)) s" and "wait_closed s"
  shows "fst (Wait mode [] s) = length (futs s)
    \<and> futs (snd (Wait mode [] s)) = futs s @ [new_future]
    \<and> tasks (snd (Wait mode [] s)) = tasks s
    \<and> pendingCallbacks (snd (Wait mode [] s)) = pendingCallbacks s
    \<and> \<not> HasResult (snd (Wait mode [] s)) (fst (Wait mode [] s))
    \<and> avoids (fst (Wait mode [] s)) (snd (Wait mode [] s))
    \<and> (works_avoid (fst (Wait mode [] s)) (snd (Wait mode [] s)) ws \<longrightarrow>
          \<not> HasResult (run ws (snd (Wait mode [] s))) (fst (Wait mode [] s))
          \<and> avoids (fst (Wait mode [] s)) (run ws (snd (Wait mode [] s))))"
proof -
  have "futs (run ws (waiting mode s)) ! length (futs s) = futs (waiting mode s) ! length (futs s)
        \<and> avoids (length (futs s)) (run ws (waiting mode s))"
    if "works_avoid (length (futs s)) (waiting mode s) ws"
    using run_avoids[OF avoids_waiting[OF assms] that] by simp
  with avoids_waiting[OF assms, of mode] show ?thesis
    by (simp add: Wait_empty HasResult_def) (simp add: waiting_def new_future_def)
qed

theorem Wait_empty_never_completes_witness:
  "fst (Wait WaitAll [] (snd (NewFuture (init_state :: int state)))) = 1
   \<and> \<not> HasResult (snd (Wait WaitAll [] (snd (NewFuture (init_state :: int state))))) 1
   \<and> \<not> HasResult (run [WSetResult 0 5 None, WLoopCb (LcUser 3)]
                    (snd (Wait WaitAll [] (snd (NewFuture (init_state :: int state)))))) 1"
proof -
  let ?s = "snd (NewFuture (init_state :: int state))"
  have h: "avoids (length (futs ?s)) ?s" "wait_closed ?s" "length (futs ?s) = 1"
    by (simp_all add: NewFuture_def init_state_def new_future_def avoids_def wait_closed_def)
  have w: "works_avoid (fst (Wait WaitAll [] ?s)) (snd (Wait WaitAll [] ?s))
             [WSetResult 0 5 None, WLoopCb (LcUser 3)]"
    by (simp add: Wait_empty h(3))
  from Wait_empty_never_completes[OF h(1,2), of WaitAll "[WSetResult 0 5 None, WLoopCb (LcUser 3)]"]
    w h(3)
  show ?thesis by auto
qed

end
